theory Spec2Isabelle
  imports Complex_Main
begin

section \<open>Tensor elements\<close>

text \<open>
  The quantizer of \<^verbatim>\<open>multi_kmeans.py\<close> computes on PyTorch float tensors. An element of
  such a tensor is modelled as a real number (arithmetic is exact: rounding, overflow and
  underflow of IEEE floats are outside the model) together with the set of trainable
  leaves that the autograd graph of the element reaches. \<^verbatim>\<open>.detach()\<close> keeps the
  value and cuts the graph; every arithmetic operation joins the graphs of its operands.
\<close>

datatype leaf = Centers | FrameEntropyScale | Upstream

datatype scalar = Scalar (val: real) (leaves: "leaf set")

instantiation scalar :: "{comm_monoid_add, comm_monoid_mult, minus, uminus, inverse}"
begin

definition zero_scalar :: scalar where
  "zero_scalar = Scalar 0 {}"

definition one_scalar :: scalar where
  "one_scalar = Scalar 1 {}"

definition plus_scalar :: "scalar \<Rightarrow> scalar \<Rightarrow> scalar" where
  "plus_scalar a b = Scalar (val a + val b) (leaves a \<union> leaves b)"

definition minus_scalar :: "scalar \<Rightarrow> scalar \<Rightarrow> scalar" where
  "minus_scalar a b = Scalar (val a - val b) (leaves a \<union> leaves b)"

definition uminus_scalar :: "scalar \<Rightarrow> scalar" where
  "uminus_scalar a = Scalar (- val a) (leaves a)"

definition times_scalar :: "scalar \<Rightarrow> scalar \<Rightarrow> scalar" where
  "times_scalar a b = Scalar (val a * val b) (leaves a \<union> leaves b)"

definition inverse_scalar :: "scalar \<Rightarrow> scalar" where
  "inverse_scalar a = Scalar (inverse (val a)) (leaves a)"

definition divide_scalar :: "scalar \<Rightarrow> scalar \<Rightarrow> scalar" where
  "divide_scalar a b = Scalar (val a / val b) (leaves a \<union> leaves b)"

instance
proof
  fix a b c :: scalar
  show "a + b + c = a + (b + c)"
    by (simp add: plus_scalar_def Un_assoc)
  show "a + b = b + a"
    by (simp add: plus_scalar_def Un_commute)
  show "0 + a = a"
    by (simp add: plus_scalar_def zero_scalar_def)
  show "a * b * c = a * (b * c)"
    by (simp add: times_scalar_def Un_assoc)
  show "a * b = b * a"
    by (simp add: times_scalar_def Un_commute mult.commute)
  show "1 * a = a"
    by (simp add: times_scalar_def one_scalar_def)
qed

end

definition const :: "real \<Rightarrow> scalar" where
  \<comment> \<open>a Python float or int constant: no graph\<close>
  "const r = Scalar r {}"

definition detach :: "scalar \<Rightarrow> scalar" where
  \<comment> \<open>\<^verbatim>\<open>.detach()\<close>, and a value written under \<^verbatim>\<open>torch.no_grad()\<close>\<close>
  "detach a = Scalar (val a) {}"

definition parameter :: "leaf \<Rightarrow> real \<Rightarrow> scalar" where
  \<comment> \<open>an element of an \<^verbatim>\<open>nn.Parameter\<close>: a leaf of the graph\<close>
  "parameter l r = Scalar r {l}"

definition exp_scalar :: "scalar \<Rightarrow> scalar" where
  "exp_scalar a = Scalar (exp (val a)) (leaves a)"

definition log_scalar :: "scalar \<Rightarrow> scalar" where
  "log_scalar a = Scalar (ln (val a)) (leaves a)"

type_synonym vec = "scalar list"

definition sumsq :: "vec \<Rightarrow> scalar" where
  \<comment> \<open>\<^verbatim>\<open>(v ** 2).sum(dim=-1)\<close>\<close>
  "sumsq v = sum_list (map (\<lambda>e. e ^ 2) v)"

definition vsum :: "nat \<Rightarrow> vec list \<Rightarrow> vec" where
  \<comment> \<open>\<^verbatim>\<open>.sum(dim=1)\<close> of a list of vectors of length \<open>d\<close>\<close>
  "vsum d vs = foldr (map2 (+)) vs (replicate d 0)"

section \<open>Errors and loops\<close>

datatype error =
    RuntimeError
  | IndexError
  | AssertionError
  | ZeroDivisionError
  | UnboundLocalError
  | AttributeError string

fun sequence :: "(error + 'a) list \<Rightarrow> error + 'a list" where
  "sequence [] = Inr []"
| "sequence (r # rs) =
     (case r of Inl e \<Rightarrow> Inl e
      | Inr a \<Rightarrow> (case sequence rs of Inl e \<Rightarrow> Inl e | Inr as \<Rightarrow> Inr (a # as)))"

fun for_range :: "nat list \<Rightarrow> (nat \<Rightarrow> 's \<Rightarrow> error + 's) \<Rightarrow> 's \<Rightarrow> error + 's" where
  \<comment> \<open>\<^verbatim>\<open>for i in range(n): body\<close> over a state, stopping at the first raise\<close>
  "for_range [] body s = Inr s"
| "for_range (i # is) body s =
     (case body i s of Inl e \<Rightarrow> Inl e | Inr s' \<Rightarrow> for_range is body s')"

section \<open>The quantizer\<close>

text \<open>
  \<^verbatim>\<open>centers\<close> has shape \<open>(num_codebooks, codebook_size, dim)\<close>: a list of codebooks, each
  a list of candidate centers, each a vector. Sizes are natural numbers (PyTorch refuses a
  negative size).
\<close>

record quantizer =
  dim :: nat
  codebook_size :: nat
  num_codebooks :: nat
  centers :: "vec list list"
  frame_entropy_scale :: scalar

definition MultiKmeansQuantizer ::
  "nat \<Rightarrow> nat \<Rightarrow> nat \<Rightarrow> (nat \<Rightarrow> nat \<Rightarrow> nat \<Rightarrow> real) \<Rightarrow> error + quantizer" where
  \<comment> \<open>\<^verbatim>\<open>__init__\<close>; \<open>randn\<close> holds the draws of \<^verbatim>\<open>torch.randn\<close>. Python raises
      ZeroDivisionError on \<^verbatim>\<open>0 ** -0.5\<close>.\<close>
  "MultiKmeansQuantizer d K C randn =
     (if d = 0 then Inl ZeroDivisionError
      else Inr \<lparr>dim = d, codebook_size = K, num_codebooks = C,
                centers = map (\<lambda>c. map (\<lambda>k. map (\<lambda>i.
                    parameter Centers (real d powr (- (1 / 2)) * randn c k i))
                  [0..<d]) [0..<K]) [0..<C],
                frame_entropy_scale = parameter FrameEntropyScale 0\<rparr>)"

definition well_shaped :: "quantizer \<Rightarrow> bool" where
  \<comment> \<open>what the constructor establishes and no method changes\<close>
  "well_shaped q =
     (0 < dim q \<and> length (centers q) = num_codebooks q \<and>
      list_all (\<lambda>cb. length cb = codebook_size q \<and> list_all (\<lambda>v. length v = dim q) cb)
        (centers q))"

subsection \<open>get_product_quantizer\<close>

definition index_row :: "vec list list \<Rightarrow> nat \<Rightarrow> nat \<Rightarrow> error + vec" where
  \<comment> \<open>\<^verbatim>\<open>t[c, k, :]\<close> read\<close>
  "index_row t c k =
     (if c < length t \<and> k < length (t ! c) then Inr (t ! c ! k) else Inl IndexError)"

definition assign_row :: "vec list list \<Rightarrow> nat \<Rightarrow> nat \<Rightarrow> vec \<Rightarrow> error + vec list list" where
  \<comment> \<open>\<^verbatim>\<open>t[c, k, :] = row\<close> on a parameter under \<^verbatim>\<open>torch.no_grad()\<close>: the values are
      copied, the elements stay leaves\<close>
  "assign_row t c k row =
     (if c < length t \<and> k < length (t ! c)
      then Inr (t[c := (t ! c)[k := map (\<lambda>e. parameter Centers (val e)) row]])
      else Inl IndexError)"

definition merge_assign ::
  "quantizer \<Rightarrow> nat \<Rightarrow> nat \<Rightarrow> nat \<Rightarrow> vec list list \<Rightarrow> error + vec list list" where
  \<comment> \<open>the body of the innermost loop\<close>
  "merge_assign self c_out k_in1 k_in2 ans_centers =
     (let c_in1 = 2 * c_out;
          c_in2 = 2 * c_out + 1;
          k_out = k_in1 * codebook_size self + k_in2
      in case index_row (centers self) c_in1 k_in1 of Inl e \<Rightarrow> Inl e
         | Inr r1 \<Rightarrow>
        (case index_row (centers self) c_in2 k_in2 of Inl e \<Rightarrow> Inl e
         | Inr r2 \<Rightarrow> assign_row ans_centers c_out k_out (map2 (+) r1 r2)))"

definition get_product_quantizer ::
  "quantizer \<Rightarrow> (nat \<Rightarrow> nat \<Rightarrow> nat \<Rightarrow> real) \<Rightarrow> error + quantizer" where
  "get_product_quantizer self randn =
     (let new_codebook_size = codebook_size self ^ 2;
          new_num_codebooks = num_codebooks self div 2
      in case MultiKmeansQuantizer (dim self) new_codebook_size new_num_codebooks randn of
           Inl e \<Rightarrow> Inl e
         | Inr ans \<Rightarrow>
            (case for_range [0..<new_num_codebooks] (\<lambda>c_out.
                    for_range [0..<codebook_size self] (\<lambda>k_in1.
                      for_range [0..<codebook_size self] (\<lambda>k_in2.
                        merge_assign self c_out k_in1 k_in2)))
                    (centers ans) of
               Inl e \<Rightarrow> Inl e
             | Inr cs \<Rightarrow> Inr (ans\<lparr>centers := cs\<rparr>)))"

subsection \<open>decode\<close>

definition gather :: "vec list \<Rightarrow> int \<Rightarrow> error + vec" where
  \<comment> \<open>\<^verbatim>\<open>torch.gather\<close> along the candidate axis of one codebook: an index outside
      \<open>[0, codebook_size)\<close> raises RuntimeError\<close>
  "gather cb i = (if 0 \<le> i \<and> i < int (length cb) then Inr (cb ! nat i) else Inl RuntimeError)"

definition cur_centers :: "quantizer \<Rightarrow> int list \<Rightarrow> error + vec list" where
  \<comment> \<open>the chosen center of every codebook, for one row of indexes\<close>
  "cur_centers self idx = sequence (map2 gather (centers self) idx)"

definition decode_row :: "quantizer \<Rightarrow> int list \<Rightarrow> error + vec" where
  "decode_row self code =
     (case cur_centers self code of Inl e \<Rightarrow> Inl e
      | Inr cs \<Rightarrow> Inr (vsum (dim self) cs))"

definition decode :: "quantizer \<Rightarrow> int list list \<Rightarrow> error + vec list" where
  \<comment> \<open>\<open>code\<close> has shape \<open>(B, num_codebooks)\<close>\<close>
  "decode self code = sequence (map (decode_row self) code)"

fun paired_code :: "nat \<Rightarrow> int list \<Rightarrow> int list" where
  \<comment> \<open>the code tuple of the merged quantizer: \<open>(k\<^sub>0 K + k\<^sub>1, k\<^sub>2 K + k\<^sub>3, \<dots>)\<close>\<close>
  "paired_code K (k1 # k2 # ks) = (k1 * int K + k2) # paired_code K ks"
| "paired_code K ks = []"

definition in_range :: "quantizer \<Rightarrow> int list \<Rightarrow> bool" where
  \<comment> \<open>a code tuple: one index in \<open>[0, codebook_size)\<close> for every codebook\<close>
  "in_range q code =
     (length code = num_codebooks q \<and> list_all (\<lambda>k. 0 \<le> k \<and> k < int (codebook_size q)) code)"

subsection \<open>refine_indexes\<close>

text \<open>
  The batched tensor expressions of \<^verbatim>\<open>refine_indexes\<close> act on every row of the batch
  independently: \<open>x\<close> is a list of \<open>B\<close> rows of length \<open>dim\<close>, \<open>indexes\<close> a list of \<open>B\<close>
  rows of length \<open>num_codebooks\<close>. The docstring's shapes are taken as given; PyTorch's
  broadcasting of other shapes is outside the model.
\<close>

primrec argmax :: "scalar list \<Rightarrow> nat" where
  \<comment> \<open>\<^verbatim>\<open>.argmax(dim=-1)\<close>: the first index of a maximal value\<close>
  "argmax [] = 0"
| "argmax (a # as) = (if list_all (\<lambda>b. val b \<le> val a) as then 0 else Suc (argmax as))"

definition modified_errs :: "quantizer \<Rightarrow> vec \<Rightarrow> int list \<Rightarrow> error + vec list list" where
  \<comment> \<open>for one row: \<open>modified_errs[c][k] = x_err - cur_centers[c] + centers[c][k]\<close>\<close>
  "modified_errs self x idx =
     (case cur_centers self idx of Inl e \<Rightarrow> Inl e
      | Inr cur \<Rightarrow>
          (let x_err = map2 (-) (vsum (dim self) cur) x
           in Inr (map2 (\<lambda>cb cc. map (\<lambda>center. map2 (+) (map2 (-) x_err cc) center) cb)
                     (centers self) cur)))"

definition refine_row :: "quantizer \<Rightarrow> vec \<Rightarrow> int list \<Rightarrow> error + int list" where
  "refine_row self x idx =
     (case modified_errs self x idx of Inl e \<Rightarrow> Inl e
      | Inr errs \<Rightarrow>
          (let modified_neg_sumsq_errs = map (map (\<lambda>e. - sumsq e)) errs
           in Inr (map (\<lambda>s. int (argmax s)) modified_neg_sumsq_errs)))"

definition refine_indexes :: "quantizer \<Rightarrow> vec list \<Rightarrow> int list list \<Rightarrow> error + int list list" where
  "refine_indexes self x indexes = sequence (map2 (refine_row self) x indexes)"

definition reconstruction_error :: "quantizer \<Rightarrow> vec \<Rightarrow> int list \<Rightarrow> error + real" where
  \<comment> \<open>\<^verbatim>\<open>((self.decode(indexes) - x) ** 2).sum()\<close> for one row\<close>
  "reconstruction_error self x code =
     (case decode_row self code of Inl e \<Rightarrow> Inl e
      | Inr y \<Rightarrow> Inr (val (sumsq (map2 (-) y x))))"

subsection \<open>refine_indexes_stochastic\<close>

text \<open>
  The loss terms sum over the batch, so the stochastic refinement is modelled on whole
  tensors: \<open>modified_sumsq_errs\<close> has shape \<open>(B, num_codebooks, codebook_size)\<close>. The sizes
  \<open>B\<close>, \<open>num_codebooks\<close> and \<open>codebook_size\<close> that \<^verbatim>\<open>.mean()\<close> and
  \<^verbatim>\<open>/ self.num_codebooks\<close> divide by are positive in every theorem below; the division by
  the energy of \<open>x\<close>, which the data decides, is modelled with the IEEE result of a zero
  denominator.
\<close>

datatype fval = Finite scalar | PosInf | NegInf | NaN

definition torch_div :: "scalar \<Rightarrow> scalar \<Rightarrow> fval" where
  \<comment> \<open>\<^verbatim>\<open>a / b\<close> on float tensors never raises: a zero denominator (here always \<open>+0.0\<close>, a
      sum of squares) gives \<open>nan\<close> or an infinity\<close>
  "torch_div a b =
     (if val b \<noteq> 0 then Finite (a / b)
      else if val a = 0 then NaN
      else if 0 < val a then PosInf else NegInf)"

definition epsilon :: real where
  \<comment> \<open>the literal \<^verbatim>\<open>1.0e-20\<close>\<close>
  "epsilon = 1 / 10 ^ 20"

definition mean :: "scalar list \<Rightarrow> scalar" where
  \<comment> \<open>\<^verbatim>\<open>.mean()\<close> over all the elements listed; the mean of an empty tensor is \<open>nan\<close> in
      PyTorch, and no theorem below takes it\<close>
  "mean xs = sum_list xs / const (real (length xs))"

definition softmax :: "scalar list \<Rightarrow> scalar list" where
  "softmax z = map (\<lambda>a. exp_scalar a / sum_list (map exp_scalar z)) z"

definition log_softmax :: "scalar list \<Rightarrow> scalar list" where
  "log_softmax z = map (\<lambda>a. a - log_scalar (sum_list (map exp_scalar z))) z"

definition modified_sumsq_errs ::
  "quantizer \<Rightarrow> vec list \<Rightarrow> int list list \<Rightarrow> error + scalar list list list" where
  "modified_sumsq_errs self x indexes =
     sequence (map2 (\<lambda>xr ir. case modified_errs self xr ir of Inl e \<Rightarrow> Inl e
                               | Inr errs \<Rightarrow> Inr (map (map sumsq) errs)) x indexes)"

definition scaled_neg_sumsq_errs_detached ::
  "quantizer \<Rightarrow> scalar list list list \<Rightarrow> scalar list list list" where
  "scaled_neg_sumsq_errs_detached self m =
     map (map (map (\<lambda>e. detach e * - exp_scalar (const 10 * frame_entropy_scale self)))) m"

definition codebook_logprobs_detached ::
  "quantizer \<Rightarrow> scalar list list list \<Rightarrow> scalar list list list" where
  "codebook_logprobs_detached self m =
     map (map log_softmax) (scaled_neg_sumsq_errs_detached self m)"

definition categorical_probs :: "scalar list \<Rightarrow> scalar list" where
  \<comment> \<open>\<^verbatim>\<open>Categorical(logits=l).probs\<close>: PyTorch normalises the logits, then takes their
      softmax\<close>
  "categorical_probs l = softmax (log_softmax l)"

fun categorical_sample :: "real list \<Rightarrow> real \<Rightarrow> nat" where
  \<comment> \<open>one draw by the inverse of the cumulative distribution, from a uniform \<open>u\<close> in
      \<open>[0, 1)\<close>\<close>
  "categorical_sample [] u = 0"
| "categorical_sample [p] u = 0"
| "categorical_sample (p # ps) u = (if u < p then 0 else Suc (categorical_sample ps (u - p)))"

definition sample_indexes ::
  "(nat \<Rightarrow> nat \<Rightarrow> real) \<Rightarrow> scalar list list list \<Rightarrow> int list list" where
  \<comment> \<open>\<^verbatim>\<open>Categorical(logits=logprobs).sample()\<close>; \<open>u b c\<close> is the uniform draw of frame
      \<open>b\<close> and codebook \<open>c\<close>\<close>
  "sample_indexes u logprobs =
     map (\<lambda>b. map (\<lambda>c. int (categorical_sample
                              (map val (categorical_probs (logprobs ! b ! c))) (u b c)))
                [0..<length (logprobs ! b)])
         [0..<length logprobs]"

definition codebook_probs_detached ::
  "quantizer \<Rightarrow> scalar list list list \<Rightarrow> scalar list list list" where
  "codebook_probs_detached self m =
     map (map softmax) (scaled_neg_sumsq_errs_detached self m)"

definition avg_frame_entropy :: "quantizer \<Rightarrow> scalar list list list \<Rightarrow> scalar" where
  \<comment> \<open>\<^verbatim>\<open>-(logprobs * probs).sum(dim=-1).mean()\<close>\<close>
  "avg_frame_entropy self m =
     - mean (concat (map2 (map2 (\<lambda>lp p. sum_list (map2 (*) lp p)))
                       (codebook_logprobs_detached self m) (codebook_probs_detached self m)))"

definition scaled_neg_sumsq_errs ::
  "quantizer \<Rightarrow> scalar list list list \<Rightarrow> scalar list list list" where
  "scaled_neg_sumsq_errs self m =
     map (map (map (\<lambda>e. e * - exp_scalar (const 10 * detach (frame_entropy_scale self))))) m"

definition codebook_probs ::
  "quantizer \<Rightarrow> scalar list list list \<Rightarrow> scalar list list list" where
  "codebook_probs self m = map (map softmax) (scaled_neg_sumsq_errs self m)"

definition expected_sumsq :: "quantizer \<Rightarrow> scalar list list list \<Rightarrow> scalar" where
  "expected_sumsq self m =
     (let expected_sumsq_term1 =
            sum_list (concat (concat (map2 (map2 (map2 (*))) (codebook_probs self m) m)))
      in expected_sumsq_term1 / const (real (num_codebooks self)))"

definition avg_probs :: "quantizer \<Rightarrow> scalar list list list \<Rightarrow> scalar list list" where
  \<comment> \<open>\<^verbatim>\<open>codebook_probs.mean(dim=0)\<close>, of shape \<open>(num_codebooks, codebook_size)\<close>\<close>
  "avg_probs self m =
     map (\<lambda>c. map (\<lambda>k. mean (map (\<lambda>p. p ! c ! k) (codebook_probs self m)))
                [0..<codebook_size self])
         [0..<num_codebooks self]"

definition class_entropy :: "quantizer \<Rightarrow> scalar list list list \<Rightarrow> scalar" where
  \<comment> \<open>\<^verbatim>\<open>-(avg_probs * (avg_probs + 1.0e-20).log()).sum(dim=1).mean()\<close>\<close>
  "class_entropy self m =
     - mean (map (\<lambda>a. sum_list (map (\<lambda>p. p * log_scalar (p + const epsilon)) a))
               (avg_probs self m))"

definition entropy_loss :: "quantizer \<Rightarrow> scalar list list list \<Rightarrow> scalar" where
  "entropy_loss self m = const (ln (real (codebook_size self))) - class_entropy self m"

definition reconstruction_loss :: "quantizer \<Rightarrow> scalar list list list \<Rightarrow> vec list \<Rightarrow> fval" where
  \<comment> \<open>\<^verbatim>\<open>expected_sumsq / (x ** 2).sum()\<close>\<close>
  "reconstruction_loss self m x = torch_div (expected_sumsq self m) (sum_list (map sumsq x))"

definition refine_indexes_stochastic ::
  "quantizer \<Rightarrow> (nat \<Rightarrow> nat \<Rightarrow> real) \<Rightarrow> vec list \<Rightarrow> int list list \<Rightarrow>
     error + (int list list \<times> scalar \<times> scalar \<times> fval)" where
  \<comment> \<open>returns \<open>(indexes, entropy_loss, avg_frame_entropy, reconstruction_loss)\<close>\<close>
  "refine_indexes_stochastic self u x indexes =
     (case modified_sumsq_errs self x indexes of Inl e \<Rightarrow> Inl e
      | Inr m \<Rightarrow>
          Inr (sample_indexes u (codebook_logprobs_detached self m),
               entropy_loss self m,
               avg_frame_entropy self m,
               reconstruction_loss self m x))"

subsection \<open>forward and encode\<close>

text \<open>
  \<open>x\<close> is the batch as \<^verbatim>\<open>x.reshape(-1, self.dim)\<close> sees it. \<^verbatim>\<open>torch.randint(high, size)\<close>
  refuses \<open>high \<le> 0\<close>; \<open>raw b c\<close> is the raw draw behind element \<open>(b, c)\<close>, reduced modulo
  \<open>high\<close>, and \<open>randint_pmf\<close> is the distribution PyTorch documents for it, uniform on
  \<open>[0, high)\<close>. A loop that runs zero times leaves the loss variables unbound.
\<close>

definition randint :: "int \<Rightarrow> nat \<Rightarrow> nat \<Rightarrow> (nat \<Rightarrow> nat \<Rightarrow> nat) \<Rightarrow> error + int list list" where
  "randint high B C raw =
     (if high \<le> 0 then Inl RuntimeError
      else Inr (map (\<lambda>b. map (\<lambda>c. int (raw b c) mod high) [0..<C]) [0..<B]))"

definition randint_pmf :: "int \<Rightarrow> int \<Rightarrow> real" where
  "randint_pmf high k = (if 0 \<le> k \<and> k < high then 1 / real_of_int high else 0)"

definition initial_indexes :: "quantizer \<Rightarrow> nat \<Rightarrow> (nat \<Rightarrow> nat \<Rightarrow> nat) \<Rightarrow> error + int list list" where
  \<comment> \<open>\<^verbatim>\<open>torch.randint(self.codebook_size - 1, (B, self.num_codebooks))\<close>\<close>
  "initial_indexes self B raw = randint (int (codebook_size self) - 1) B (num_codebooks self) raw"

definition initial_index_pmf :: "quantizer \<Rightarrow> int \<Rightarrow> real" where
  "initial_index_pmf self = randint_pmf (int (codebook_size self) - 1)"

definition forward ::
  "quantizer \<Rightarrow> (nat \<Rightarrow> nat \<Rightarrow> nat) \<Rightarrow> (nat \<Rightarrow> nat \<Rightarrow> nat \<Rightarrow> real) \<Rightarrow> vec list \<Rightarrow> nat \<Rightarrow>
     error + (int list list \<times> scalar \<times> scalar \<times> fval)" where
  \<comment> \<open>\<open>u i\<close> holds the uniform draws of iteration \<open>i\<close>\<close>
  "forward self raw u x num_iters =
     (if \<not> list_all (\<lambda>r. length r = dim self) x then Inl AssertionError
      else case initial_indexes self (length x) raw of Inl e \<Rightarrow> Inl e
        | Inr indexes \<Rightarrow>
           (case for_range [0..<num_iters]
                   (\<lambda>i st. case refine_indexes_stochastic self (u i) x (fst st) of
                              Inl e \<Rightarrow> Inl e
                            | Inr (idx, losses) \<Rightarrow> Inr (idx, Some losses))
                   (indexes, None) of
              Inl e \<Rightarrow> Inl e
            | Inr (idx, None) \<Rightarrow> Inl UnboundLocalError
            | Inr (idx, Some losses) \<Rightarrow> Inr (idx, losses)))"

definition encode :: "quantizer \<Rightarrow> vec list \<Rightarrow> nat \<Rightarrow> error + int list list" where
  "encode self x num_iters =
     (if \<not> list_all (\<lambda>r. length r = dim self) x then Inl AssertionError
      else for_range [0..<num_iters] (\<lambda>i indexes. refine_indexes self x indexes)
             (replicate (length x) (replicate (num_codebooks self) 0)))"

subsection \<open>compute_ref_loss\<close>

text \<open>
  \<^verbatim>\<open>compute_ref_loss\<close> calls \<^verbatim>\<open>self._logits(x)\<close> and \<^verbatim>\<open>self._to_output()\<close>. The class body
  defines the attributes listed in \<open>class_attributes\<close> and nothing else, and its base
  class \<^verbatim>\<open>nn.Module\<close> has neither name, so the attribute lookup raises. The rest of the
  body is modelled over whatever the two methods would return: \<open>logits\<close> of shape
  \<open>(B, num_codebooks, codebook_size)\<close> and \<open>to_output\<close> of shape
  \<open>(num_codebooks, codebook_size, dim)\<close>.
\<close>

definition class_attributes :: "string list" where
  "class_attributes =
     [''dim'', ''codebook_size'', ''num_codebooks'', ''centers'', ''frame_entropy_scale'',
      ''get_product_quantizer'', ''compute_ref_loss'', ''forward'', ''encode'',
      ''encode_as_bytes'', ''decode'', ''refine_indexes'', ''refine_indexes_stochastic'']"

definition getattr :: "string \<Rightarrow> 'a \<Rightarrow> error + 'a" where
  \<comment> \<open>\<open>impl\<close> is what the attribute would hold if the class had it\<close>
  "getattr name impl = (if name \<in> set class_attributes then Inr impl else Inl (AttributeError name))"

definition compute_ref_loss_body ::
  "scalar list list list \<Rightarrow> vec list list \<Rightarrow> quantizer \<Rightarrow> vec list \<Rightarrow> error + fval" where
  "compute_ref_loss_body logits to_output self x =
     (let indices = map (map (\<lambda>s. int (argmax s))) logits
      in case sequence (map (\<lambda>idx. sequence (map2 gather to_output idx)) indices) of
           Inl e \<Rightarrow> Inl e
         | Inr chosen_codebooks \<Rightarrow>
            (let tot_codebooks = map (vsum (dim self)) chosen_codebooks;
                 tot_error = map2 (map2 (-)) tot_codebooks x;
                 tot_error_sumsq = sum_list (map sumsq tot_error);
                 x_tot_sumsq = sum_list (map sumsq x) + const epsilon;
                 rel_tot_error_sumsq = torch_div tot_error_sumsq x_tot_sumsq
             in Inr rel_tot_error_sumsq))"

definition compute_ref_loss ::
  "(quantizer \<Rightarrow> vec list \<Rightarrow> scalar list list list) \<Rightarrow> (quantizer \<Rightarrow> vec list list) \<Rightarrow>
     quantizer \<Rightarrow> vec list \<Rightarrow> error + fval" where
  "compute_ref_loss logits_impl to_output_impl self x =
     (case getattr ''_logits'' logits_impl of Inl e \<Rightarrow> Inl e
      | Inr logits_method \<Rightarrow>
         (case getattr ''_to_output'' to_output_impl of Inl e \<Rightarrow> Inl e
          | Inr to_output_method \<Rightarrow>
              compute_ref_loss_body (logits_method self x) (to_output_method self) self x))"

subsection \<open>Notions used in the statements\<close>

definition softmax_real :: "real list \<Rightarrow> real list" where
  \<comment> \<open>the softmax of a list of reals, as mathematics has it\<close>
  "softmax_real z = map (\<lambda>a. exp a / sum_list (map exp z)) z"

definition valid_batch :: "quantizer \<Rightarrow> vec list \<Rightarrow> int list list \<Rightarrow> bool" where
  \<comment> \<open>\<open>x\<close> of shape \<open>(B, dim)\<close> and \<open>indexes\<close> of shape \<open>(B, num_codebooks)\<close> with entries in
      \<open>[0, codebook_size)\<close>, as the docstrings require\<close>
  "valid_batch q x indexes =
     (length x = length indexes \<and> list_all (\<lambda>r. length r = dim q) x \<and>
      list_all (in_range q) indexes)"

definition parameters_are_leaves :: "quantizer \<Rightarrow> bool" where
  \<comment> \<open>every element of the two \<^verbatim>\<open>nn.Parameter\<close>s is a leaf of its own parameter, as the
      constructor and \<^verbatim>\<open>get_product_quantizer\<close> leave them\<close>
  "parameters_are_leaves q =
     (list_all (list_all (list_all (\<lambda>e. leaves e = {Centers}))) (centers q) \<and>
      leaves (frame_entropy_scale q) = {FrameEntropyScale})"

definition batch_leaves :: "vec list \<Rightarrow> leaf set" where
  \<comment> \<open>the leaves that the graph of the input reaches\<close>
  "batch_leaves x = \<Union> (leaves ` set (concat x))"

definition uniform_usage :: "quantizer \<Rightarrow> scalar list list list \<Rightarrow> bool" where
  \<comment> \<open>the batch-averaged selection probabilities of every codebook are all equal to
      \<open>1 / codebook_size\<close>\<close>
  "uniform_usage q m =
     list_all (list_all (\<lambda>a. val a = 1 / real (codebook_size q))) (avg_probs q m)"

definition entropy_loss_spec :: "quantizer \<Rightarrow> scalar list list list \<Rightarrow> real" where
  \<comment> \<open>the specification's entropy loss: \<open>log K\<close> minus the entropy \<open>- \<Sum> p log p\<close> of the
      batch-averaged usage \<open>avg_probs\<close> of a codebook, averaged over the codebooks; it has no
      \<open>1.0e-20\<close> inside the logarithm\<close>
  "entropy_loss_spec q m =
     ln (real (codebook_size q)) -
     sum_list (map (\<lambda>a. - sum_list (map (\<lambda>p. p * ln p) (map val a))) (avg_probs q m))
       / real (length (avg_probs q m))"

subsection \<open>Closed forms and invariants used in the proofs\<close>

text \<open>
  None of these is part of the program: \<open>merged_centers\<close> is what the three loops of
  \<^verbatim>\<open>get_product_quantizer\<close> are proved to leave in \<open>ans.centers\<close>, \<open>merge_inv\<close> is the
  invariant of those loops, \<open>modified_errs_closed\<close> and \<open>modified_sumsq_errs_closed\<close> are
  what \<open>modified_errs\<close> and \<open>modified_sumsq_errs\<close> are proved to return on well-shaped
  input, and \<open>logits_real\<close> and \<open>usage_real\<close> are the values of the scaled costs and of
  \<open>avg_probs\<close>.
\<close>

definition merged_row :: "quantizer \<Rightarrow> nat \<Rightarrow> nat \<Rightarrow> vec" where
  "merged_row q c k =
     map (\<lambda>e. parameter Centers (val e))
       (map2 (+) (centers q ! (2 * c) ! (k div codebook_size q))
                 (centers q ! (2 * c + 1) ! (k mod codebook_size q)))"

definition merge_inv :: "quantizer \<Rightarrow> vec list list \<Rightarrow> nat \<Rightarrow> nat \<Rightarrow> vec list list \<Rightarrow> bool" where
  "merge_inv q t0 c_out m t =
     (length t = num_codebooks q div 2 \<and>
      (\<forall>c < length t. length (t ! c) = codebook_size q ^ 2 \<and>
         (\<forall>k < codebook_size q ^ 2.
            t ! c ! k = (if c < c_out \<or> (c = c_out \<and> k < m) then merged_row q c k else t0 ! c ! k))))"

definition merged_centers :: "quantizer \<Rightarrow> vec list list" where
  "merged_centers q =
     map (\<lambda>c. map (merged_row q c) [0..<codebook_size q ^ 2]) [0..<num_codebooks q div 2]"

definition modified_errs_closed :: "quantizer \<Rightarrow> vec \<Rightarrow> int list \<Rightarrow> vec list list" where
  "modified_errs_closed q x code =
     map (\<lambda>c. map (\<lambda>k. map (\<lambda>i.
            sum_list (map (\<lambda>c'. centers q ! c' ! nat (code ! c') ! i) [0..<num_codebooks q]) - x ! i
              - centers q ! c ! nat (code ! c) ! i + centers q ! c ! k ! i)
          [0..<dim q]) [0..<codebook_size q]) [0..<num_codebooks q]"

definition modified_sumsq_errs_closed ::
  "quantizer \<Rightarrow> vec list \<Rightarrow> int list list \<Rightarrow> scalar list list list" where
  "modified_sumsq_errs_closed q x indexes =
     map (\<lambda>b. map (map sumsq) (modified_errs_closed q (x ! b) (indexes ! b))) [0..<length indexes]"

definition logits_real :: "quantizer \<Rightarrow> scalar list \<Rightarrow> real list" where
  "logits_real q s = map (\<lambda>e. - val e * exp (10 * val (frame_entropy_scale q))) s"

definition usage_real :: "quantizer \<Rightarrow> scalar list list list \<Rightarrow> nat \<Rightarrow> real list" where
  "usage_real q m c =
     map (\<lambda>k. (\<Sum>b < length m. softmax_real (logits_real q (m ! b ! c)) ! k) / real (length m))
       [0..<codebook_size q]"

subsection \<open>Concrete quantizers\<close>

text \<open>
  \<open>example_pair\<close> is the merge example of the specification; \<open>example_overshoot\<close> has two
  codebooks that both want to move; \<open>example_balanced\<close> has two equal centers, so that both
  candidates are equally likely.
\<close>

definition example_pair :: quantizer where
  "example_pair =
     \<lparr>dim = 2, codebook_size = 2, num_codebooks = 2,
      centers = [[[parameter Centers 1, parameter Centers 0], [parameter Centers 0, parameter Centers 1]],
                 [[parameter Centers 0, parameter Centers 1], [parameter Centers 1, parameter Centers 0]]],
      frame_entropy_scale = parameter FrameEntropyScale 0\<rparr>"

definition example_triple :: quantizer where
  "example_triple =
     \<lparr>dim = 1, codebook_size = 2, num_codebooks = 3,
      centers = [[[parameter Centers 1], [parameter Centers 2]],
                 [[parameter Centers 10], [parameter Centers 20]],
                 [[parameter Centers 100], [parameter Centers 200]]],
      frame_entropy_scale = parameter FrameEntropyScale 0\<rparr>"

definition example_overshoot :: quantizer where
  "example_overshoot =
     \<lparr>dim = 1, codebook_size = 2, num_codebooks = 2,
      centers = [[[parameter Centers 0], [parameter Centers 4]],
                 [[parameter Centers 0], [parameter Centers 4]]],
      frame_entropy_scale = parameter FrameEntropyScale 0\<rparr>"

definition example_balanced :: quantizer where
  "example_balanced =
     \<lparr>dim = 1, codebook_size = 2, num_codebooks = 1,
      centers = [[[parameter Centers 1], [parameter Centers 1]]],
      frame_entropy_scale = parameter FrameEntropyScale 0\<rparr>"

section \<open>Facts about tensor elements\<close>

lemma val_simps [simp]:
  "val (a + b) = val a + val b"
  "val (a - b) = val a - val b"
  "val (a * b) = val a * val b"
  "val (a / b) = val a / val b"
  "val (- a) = - val a"
  "val 0 = 0"
  "val 1 = 1"
  "val (const r) = r"
  "val (detach a) = val a"
  "val (parameter l r) = r"
  "val (exp_scalar a) = exp (val a)"
  "val (log_scalar a) = ln (val a)"
  by (simp_all add: plus_scalar_def minus_scalar_def times_scalar_def divide_scalar_def
      uminus_scalar_def zero_scalar_def one_scalar_def const_def detach_def parameter_def
      exp_scalar_def log_scalar_def)

lemma leaves_simps [simp]:
  "leaves (a + b) = leaves a \<union> leaves b"
  "leaves (a - b) = leaves a \<union> leaves b"
  "leaves (a * b) = leaves a \<union> leaves b"
  "leaves (a / b) = leaves a \<union> leaves b"
  "leaves (- a) = leaves a"
  "leaves 0 = {}"
  "leaves 1 = {}"
  "leaves (const r) = {}"
  "leaves (detach a) = {}"
  "leaves (parameter l r) = {l}"
  "leaves (exp_scalar a) = leaves a"
  "leaves (log_scalar a) = leaves a"
  by (simp_all add: plus_scalar_def minus_scalar_def times_scalar_def divide_scalar_def
      uminus_scalar_def zero_scalar_def one_scalar_def const_def detach_def parameter_def
      exp_scalar_def log_scalar_def)

lemma val_power [simp]: "val (a ^ n) = val a ^ n"
  by (induction n) simp_all

lemma leaves_power2 [simp]: "leaves (a ^ 2) = leaves a"
  by (simp add: power2_eq_square)

lemma val_sum_list [simp]: "val (sum_list xs) = sum_list (map val xs)"
  by (induction xs) simp_all

lemma leaves_sum_list [simp]: "leaves (sum_list xs) = \<Union> (leaves ` set xs)"
  by (induction xs) simp_all

section \<open>Loops with an invariant\<close>

lemma for_range_append:
  "for_range (xs @ ys) body s =
     (case for_range xs body s of Inl e \<Rightarrow> Inl e | Inr s' \<Rightarrow> for_range ys body s')"
  by (induction xs arbitrary: s) (simp_all split: sum.splits)

lemma for_range_invariant:
  assumes "I 0 s0"
    and "\<And>i s. i < n \<Longrightarrow> I i s \<Longrightarrow> \<exists>s'. body i s = Inr s' \<and> I (Suc i) s'"
  shows "\<exists>s'. for_range [0..<n] body s0 = Inr s' \<and> I n s'"
  using assms(2)
proof (induction n)
  case 0
  then show ?case using assms(1) by simp
next
  case (Suc n)
  then obtain s1 where s1: "for_range [0..<n] body s0 = Inr s1" "I n s1"
    by (metis less_Suc_eq)
  from Suc.prems [of n s1] s1(2) obtain s2 where "body n s1 = Inr s2" "I (Suc n) s2"
    by auto
  with s1 show ?case
    by (simp add: for_range_append)
qed

section \<open>get_product_quantizer and decode\<close>

lemma well_shapedD:
  assumes "well_shaped q" "c < num_codebooks q"
  shows "c < length (centers q)" "length (centers q ! c) = codebook_size q"
    "k < codebook_size q \<Longrightarrow> length (centers q ! c ! k) = dim q"
  using assms by (auto simp: well_shaped_def list_all_length)

lemma k_out_less:
  fixes K :: nat
  assumes "k1 < K" "k2 < K"
  shows "k1 * K + k2 < K ^ 2"
proof -
  have "k1 * K + k2 < Suc k1 * K" using assms by simp
  also have "\<dots> \<le> K * K" using assms by (simp add: Suc_leI mult_le_mono1 del: mult_Suc)
  finally show ?thesis by (simp add: power2_eq_square)
qed

lemma merge_assign_step:
  assumes ws: "well_shaped q" and c: "c_out < num_codebooks q div 2"
    and k1: "k1 < codebook_size q" and k2: "k2 < codebook_size q"
    and inv: "merge_inv q t0 c_out (k1 * codebook_size q + k2) t"
  shows "\<exists>t'. merge_assign q c_out k1 k2 t = Inr t' \<and>
              merge_inv q t0 c_out (k1 * codebook_size q + Suc k2) t'"
proof -
  let ?K = "codebook_size q"
  let ?k = "k1 * ?K + k2"
  have c1: "2 * c_out < num_codebooks q" and c2: "2 * c_out + 1 < num_codebooks q"
    using c by auto
  have kout: "?k < ?K ^ 2" using k1 k2 by (rule k_out_less)
  have lt: "c_out < length t" "length (t ! c_out) = ?K ^ 2"
    using inv c by (auto simp: merge_inv_def)
  have r1: "index_row (centers q) (2 * c_out) k1 = Inr (centers q ! (2 * c_out) ! k1)"
    using well_shapedD(1,2) [OF ws c1] k1 by (simp add: index_row_def)
  have r2: "index_row (centers q) (2 * c_out + 1) k2 = Inr (centers q ! (2 * c_out + 1) ! k2)"
    using well_shapedD(1,2) [OF ws c2] k2 by (simp add: index_row_def)
  have row: "merged_row q c_out ?k =
      map (\<lambda>e. parameter Centers (val e))
        (map2 (+) (centers q ! (2 * c_out) ! k1) (centers q ! (2 * c_out + 1) ! k2))"
    using k2 by (simp add: merged_row_def)
  define t' where "t' = t[c_out := (t ! c_out)[?k := merged_row q c_out ?k]]"
  have ma: "merge_assign q c_out k1 k2 t = Inr t'"
    unfolding merge_assign_def Let_def r1 r2
    using lt kout by (simp add: assign_row_def row t'_def)
  have "merge_inv q t0 c_out (Suc ?k) t'"
    unfolding merge_inv_def
  proof (intro conjI allI impI)
    show "length t' = num_codebooks q div 2"
      using inv by (simp add: t'_def merge_inv_def)
  next
    fix c assume "c < length t'"
    then have cl: "c < length t" by (simp add: t'_def)
    show "length (t' ! c) = ?K ^ 2"
      using inv cl by (cases "c = c_out") (simp_all add: t'_def merge_inv_def)
  next
    fix c k assume "c < length t'" and kk: "k < ?K ^ 2"
    then have cl: "c < length t" by (simp add: t'_def)
    have old: "t ! c ! k = (if c < c_out \<or> (c = c_out \<and> k < ?k) then merged_row q c k else t0 ! c ! k)"
      using inv cl kk by (simp add: merge_inv_def)
    show "t' ! c ! k = (if c < c_out \<or> (c = c_out \<and> k < Suc ?k) then merged_row q c k else t0 ! c ! k)"
    proof (cases "c = c_out \<and> k = ?k")
      case True
      then show ?thesis using lt kout by (simp add: t'_def)
    next
      case False
      then have "t' ! c ! k = t ! c ! k"
        using cl by (cases "c = c_out") (auto simp: t'_def)
      with old False show ?thesis by (auto simp: less_Suc_eq)
    qed
  qed
  with ma show ?thesis by simp
qed

lemma merge_inner_loop:
  assumes ws: "well_shaped q" and c: "c_out < num_codebooks q div 2"
    and k1: "k1 < codebook_size q"
    and inv: "merge_inv q t0 c_out (k1 * codebook_size q) t"
  shows "\<exists>t'. for_range [0..<codebook_size q] (\<lambda>k2. merge_assign q c_out k1 k2) t = Inr t' \<and>
              merge_inv q t0 c_out (Suc k1 * codebook_size q) t'"
proof -
  have "\<exists>t'. for_range [0..<codebook_size q] (\<lambda>k2. merge_assign q c_out k1 k2) t = Inr t' \<and>
      merge_inv q t0 c_out (k1 * codebook_size q + codebook_size q) t'"
  proof (rule for_range_invariant [where I = "\<lambda>k2. merge_inv q t0 c_out (k1 * codebook_size q + k2)"])
    show "merge_inv q t0 c_out (k1 * codebook_size q + 0) t" using inv by simp
  next
    fix i s assume "i < codebook_size q" "merge_inv q t0 c_out (k1 * codebook_size q + i) s"
    then show "\<exists>s'. merge_assign q c_out k1 i s = Inr s' \<and>
        merge_inv q t0 c_out (k1 * codebook_size q + Suc i) s'"
      by (rule merge_assign_step [OF ws c k1])
  qed
  then show ?thesis by (simp add: add.commute)
qed

lemma merge_inv_next:
  "merge_inv q t0 c_out (codebook_size q * codebook_size q) t \<Longrightarrow> merge_inv q t0 (Suc c_out) 0 t"
  unfolding merge_inv_def
  by (auto simp: less_Suc_eq power2_eq_square)

lemma merge_middle_loop:
  assumes ws: "well_shaped q" and c: "c_out < num_codebooks q div 2"
    and inv: "merge_inv q t0 c_out 0 t"
  shows "\<exists>t'. for_range [0..<codebook_size q] (\<lambda>k1.
                 for_range [0..<codebook_size q] (\<lambda>k2. merge_assign q c_out k1 k2)) t = Inr t' \<and>
              merge_inv q t0 (Suc c_out) 0 t'"
proof -
  have "\<exists>t'. for_range [0..<codebook_size q] (\<lambda>k1.
                 for_range [0..<codebook_size q] (\<lambda>k2. merge_assign q c_out k1 k2)) t = Inr t' \<and>
      merge_inv q t0 c_out (codebook_size q * codebook_size q) t'"
  proof (rule for_range_invariant [where I = "\<lambda>k1. merge_inv q t0 c_out (k1 * codebook_size q)"])
    show "merge_inv q t0 c_out (0 * codebook_size q) t" using inv by simp
  next
    fix i s assume "i < codebook_size q" "merge_inv q t0 c_out (i * codebook_size q) s"
    then show "\<exists>s'. for_range [0..<codebook_size q] (\<lambda>k2. merge_assign q c_out i k2) s = Inr s' \<and>
        merge_inv q t0 c_out (Suc i * codebook_size q) s'"
      by (rule merge_inner_loop [OF ws c])
  qed
  then show ?thesis by (auto dest: merge_inv_next)
qed

lemma merge_outer_loop:
  assumes ws: "well_shaped q" and inv: "merge_inv q t0 0 0 t0"
  shows "\<exists>t'. for_range [0..<num_codebooks q div 2] (\<lambda>c_out.
                 for_range [0..<codebook_size q] (\<lambda>k1.
                   for_range [0..<codebook_size q] (\<lambda>k2. merge_assign q c_out k1 k2))) t0 = Inr t' \<and>
              merge_inv q t0 (num_codebooks q div 2) 0 t'"
proof (rule for_range_invariant [where I = "\<lambda>c. merge_inv q t0 c 0"])
  show "merge_inv q t0 0 0 t0" by (rule inv)
next
  fix i s assume "i < num_codebooks q div 2" "merge_inv q t0 i 0 s"
  then show "\<exists>s'. for_range [0..<codebook_size q] (\<lambda>k1.
                 for_range [0..<codebook_size q] (\<lambda>k2. merge_assign q i k1 k2)) s = Inr s' \<and>
        merge_inv q t0 (Suc i) 0 s'"
    by (rule merge_middle_loop [OF ws])
qed

lemma merge_inv_final:
  assumes "merge_inv q t0 (num_codebooks q div 2) 0 t"
  shows "t = merged_centers q"
proof (rule nth_equalityI)
  show "length t = length (merged_centers q)"
    using assms by (simp add: merge_inv_def merged_centers_def)
next
  fix c assume c: "c < length t"
  then have c': "c < num_codebooks q div 2" using assms by (simp add: merge_inv_def)
  show "t ! c = merged_centers q ! c"
  proof (rule nth_equalityI)
    show "length (t ! c) = length (merged_centers q ! c)"
      using assms c c' by (simp add: merge_inv_def merged_centers_def)
  next
    fix k assume "k < length (t ! c)"
    then have "k < codebook_size q ^ 2" using assms c by (simp add: merge_inv_def)
    then show "t ! c ! k = merged_centers q ! c ! k"
      using assms c c' by (simp add: merge_inv_def merged_centers_def)
  qed
qed

lemma get_product_quantizer_eq:
  assumes ws: "well_shaped q"
  shows "get_product_quantizer q randn =
    Inr \<lparr>dim = dim q, codebook_size = codebook_size q ^ 2, num_codebooks = num_codebooks q div 2,
         centers = merged_centers q, frame_entropy_scale = parameter FrameEntropyScale 0\<rparr>"
proof -
  from ws have d: "dim q \<noteq> 0" by (simp add: well_shaped_def)
  define t0 where "t0 = map (\<lambda>c. map (\<lambda>k. map (\<lambda>i.
                    parameter Centers (real (dim q) powr (- (1 / 2)) * randn c k i))
                  [0..<dim q]) [0..<codebook_size q ^ 2]) [0..<num_codebooks q div 2]"
  have "merge_inv q t0 0 0 t0"
    by (simp add: merge_inv_def t0_def)
  from merge_outer_loop [OF ws this] obtain t' where
    t': "for_range [0..<num_codebooks q div 2] (\<lambda>c_out.
                 for_range [0..<codebook_size q] (\<lambda>k1.
                   for_range [0..<codebook_size q] (\<lambda>k2. merge_assign q c_out k1 k2))) t0 = Inr t'"
    and "merge_inv q t0 (num_codebooks q div 2) 0 t'" by blast
  then have "t' = merged_centers q" by (simp add: merge_inv_final)
  with t' d show ?thesis
    by (simp add: get_product_quantizer_def MultiKmeansQuantizer_def Let_def t0_def)
qed

lemma sequence_map_Inr:
  "(\<And>x. x \<in> set xs \<Longrightarrow> f x = Inr (g x)) \<Longrightarrow> sequence (map f xs) = Inr (map g xs)"
  by (induction xs) simp_all

lemma cur_centers_eq:
  assumes ws: "well_shaped q" and r: "in_range q code"
  shows "cur_centers q code =
    Inr (map (\<lambda>c. centers q ! c ! nat (code ! c)) [0..<num_codebooks q])"
proof -
  have len: "length (centers q) = num_codebooks q" "length code = num_codebooks q"
    using ws r by (simp_all add: well_shaped_def in_range_def)
  have "map2 gather (centers q) code =
      map (\<lambda>c. gather (centers q ! c) (code ! c)) [0..<num_codebooks q]"
    using len by (intro nth_equalityI) simp_all
  moreover have "sequence (map (\<lambda>c. gather (centers q ! c) (code ! c)) [0..<num_codebooks q]) =
      Inr (map (\<lambda>c. centers q ! c ! nat (code ! c)) [0..<num_codebooks q])"
  proof (rule sequence_map_Inr)
    fix c assume "c \<in> set [0..<num_codebooks q]"
    then have c: "c < num_codebooks q" by simp
    then have "0 \<le> code ! c" "code ! c < int (codebook_size q)"
      using r len by (simp_all add: in_range_def list_all_length)
    then show "gather (centers q ! c) (code ! c) = Inr (centers q ! c ! nat (code ! c))"
      using well_shapedD(2) [OF ws c] by (simp add: gather_def)
  qed
  ultimately show ?thesis by (simp add: cur_centers_def)
qed

lemma vsum_length:
  "(\<And>v. v \<in> set vs \<Longrightarrow> length v = d) \<Longrightarrow> length (vsum d vs) = d"
  by (induction vs) (simp_all add: vsum_def)

lemma vsum_nth:
  "(\<And>v. v \<in> set vs \<Longrightarrow> length v = d) \<Longrightarrow> i < d \<Longrightarrow>
     vsum d vs ! i = sum_list (map (\<lambda>v. v ! i) vs)"
proof (induction vs)
  case Nil
  then show ?case by (simp add: vsum_def)
next
  case (Cons v vs)
  have "length (vsum d vs) = d" using Cons.prems(1) by (intro vsum_length) simp
  moreover have "vsum d (v # vs) = map2 (+) v (vsum d vs)" by (simp add: vsum_def)
  ultimately show ?case using Cons by simp
qed

lemma decode_row_eq:
  assumes ws: "well_shaped q" and r: "in_range q code"
  shows "\<exists>y. decode_row q code = Inr y \<and> length y = dim q \<and>
     (\<forall>i < dim q. val (y ! i) =
        (\<Sum>c < num_codebooks q. val (centers q ! c ! nat (code ! c) ! i)))"
proof -
  let ?vs = "map (\<lambda>c. centers q ! c ! nat (code ! c)) [0..<num_codebooks q]"
  have len: "\<And>v. v \<in> set ?vs \<Longrightarrow> length v = dim q"
  proof -
    fix v assume "v \<in> set ?vs"
    then obtain c where c: "c < num_codebooks q" and v: "v = centers q ! c ! nat (code ! c)"
      by auto
    have "0 \<le> code ! c" "code ! c < int (codebook_size q)"
      using r c by (simp_all add: in_range_def list_all_length)
    then have "nat (code ! c) < codebook_size q" by simp
    then show "length v = dim q" using well_shapedD(3) [OF ws c] v by simp
  qed
  have d: "decode_row q code = Inr (vsum (dim q) ?vs)"
    by (simp add: decode_row_def cur_centers_eq [OF ws r])
  have "val (vsum (dim q) ?vs ! i) =
      (\<Sum>c < num_codebooks q. val (centers q ! c ! nat (code ! c) ! i))" if "i < dim q" for i
  proof -
    have "val (vsum (dim q) ?vs ! i) = sum_list (map (\<lambda>c. val (centers q ! c ! nat (code ! c) ! i)) [0..<num_codebooks q])"
      using vsum_nth [of ?vs "dim q" i, OF len that] by (simp add: comp_def)
    also have "\<dots> = (\<Sum>c < num_codebooks q. val (centers q ! c ! nat (code ! c) ! i))"
      by (simp add: interv_sum_list_conv_sum_set_nat atLeast0LessThan)
    finally show ?thesis .
  qed
  with d vsum_length [of ?vs "dim q", OF len] show ?thesis by simp
qed

lemma paired_code_length: "length (paired_code K code) = length code div 2"
  by (induction K code rule: paired_code.induct) simp_all

lemma paired_code_nth:
  "c < length code div 2 \<Longrightarrow>
     paired_code K code ! c = code ! (2 * c) * int K + code ! (2 * c + 1)"
proof (induction K code arbitrary: c rule: paired_code.induct)
  case (1 K k1 k2 ks)
  then show ?case by (cases c) simp_all
qed simp_all

lemma sum_pairs:
  fixes f :: "nat \<Rightarrow> real"
  shows "(\<Sum>c < 2 * n. f c) = (\<Sum>c < n. f (2 * c) + f (2 * c + 1))"
  by (induction n) simp_all

lemma merged_centers_nth:
  assumes "c < num_codebooks q div 2" "k1 < codebook_size q" "k2 < codebook_size q"
  shows "merged_centers q ! c ! (k1 * codebook_size q + k2) =
     map (\<lambda>e. parameter Centers (val e))
       (map2 (+) (centers q ! (2 * c) ! k1) (centers q ! (2 * c + 1) ! k2))"
  using assms k_out_less [OF assms(2,3)] by (simp add: merged_centers_def merged_row_def)

lemma well_shaped_merged:
  assumes ws: "well_shaped q"
  shows "well_shaped \<lparr>dim = dim q, codebook_size = codebook_size q ^ 2,
      num_codebooks = num_codebooks q div 2,
      centers = merged_centers q, frame_entropy_scale = s\<rparr>"
proof -
  have "length (merged_row q c k) = dim q"
    if "c < num_codebooks q div 2" "k < codebook_size q ^ 2" for c k
  proof -
    have "0 < codebook_size q" using that(2) by (cases "codebook_size q = 0") simp_all
    then have k: "k div codebook_size q < codebook_size q" "k mod codebook_size q < codebook_size q"
      using that(2) by (simp_all add: power2_eq_square less_mult_imp_div_less)
    have "2 * c < num_codebooks q" "2 * c + 1 < num_codebooks q" using that(1) by auto
    then show ?thesis
      using well_shapedD(3) [OF ws _ k(1), of "2 * c"] well_shapedD(3) [OF ws _ k(2), of "2 * c + 1"]
      by (simp add: merged_row_def)
  qed
  then show ?thesis using ws
    by (simp add: well_shaped_def merged_centers_def list_all_length)
qed

lemma pair_index:
  fixes k1 k2 :: int
  assumes "0 \<le> k1" "k1 < int K" "0 \<le> k2" "k2 < int K"
  shows "nat (k1 * int K + k2) = nat k1 * K + nat k2" "nat k1 < K" "nat k2 < K"
    "0 \<le> k1 * int K + k2" "k1 * int K + k2 < int (K ^ 2)"
proof -
  show n: "nat (k1 * int K + k2) = nat k1 * K + nat k2"
    using assms by (simp add: nat_add_distrib nat_mult_distrib)
  show n1: "nat k1 < K" and n2: "nat k2 < K" using assms by simp_all
  show p: "0 \<le> k1 * int K + k2" using assms by simp
  have "nat k1 * K + nat k2 < K ^ 2" using n1 n2 by (rule k_out_less)
  then have "nat (k1 * int K + k2) < K ^ 2" using n by simp
  then show "k1 * int K + k2 < int (K ^ 2)" using p by linarith
qed

lemma in_range_paired:
  assumes r: "in_range q code"
  shows "in_range \<lparr>dim = d, codebook_size = codebook_size q ^ 2,
      num_codebooks = num_codebooks q div 2, centers = cs, frame_entropy_scale = s\<rparr>
    (paired_code (codebook_size q) code)"
proof -
  have len: "length code = num_codebooks q" using r by (simp add: in_range_def)
  have "0 \<le> paired_code (codebook_size q) code ! c \<and>
        paired_code (codebook_size q) code ! c < int (codebook_size q ^ 2)"
    if "c < num_codebooks q div 2" for c
  proof -
    have "2 * c < length code" "2 * c + 1 < length code" using that len by auto
    then have "0 \<le> code ! (2 * c)" "code ! (2 * c) < int (codebook_size q)"
      "0 \<le> code ! (2 * c + 1)" "code ! (2 * c + 1) < int (codebook_size q)"
      using r by (simp_all add: in_range_def list_all_length)
    from pair_index(4,5) [OF this] show ?thesis
      using that len by (simp add: paired_code_nth)
  qed
  then show ?thesis
    using len by (simp add: in_range_def paired_code_length list_all_length)
qed

lemma decode_row_merged:
  assumes ws: "well_shaped q" and ev: "even (num_codebooks q)" and r: "in_range q code"
  shows "\<exists>y y'. decode_row q code = Inr y \<and>
     decode_row \<lparr>dim = dim q, codebook_size = codebook_size q ^ 2,
         num_codebooks = num_codebooks q div 2, centers = merged_centers q,
         frame_entropy_scale = s\<rparr> (paired_code (codebook_size q) code) = Inr y' \<and>
     map val y' = map val y"
proof -
  let ?K = "codebook_size q"
  let ?q' = "\<lparr>dim = dim q, codebook_size = ?K ^ 2,
         num_codebooks = num_codebooks q div 2, centers = merged_centers q,
         frame_entropy_scale = s\<rparr>"
  let ?pc = "paired_code ?K code"
  have len: "length code = num_codebooks q" using r by (simp add: in_range_def)
  from decode_row_eq [OF ws r] obtain y where
    y: "decode_row q code = Inr y" "length y = dim q"
    "\<And>i. i < dim q \<Longrightarrow> val (y ! i) = (\<Sum>c < num_codebooks q. val (centers q ! c ! nat (code ! c) ! i))"
    by blast
  have ws': "well_shaped ?q'" using ws by (rule well_shaped_merged)
  have r': "in_range ?q' ?pc" using r by (rule in_range_paired)
  from decode_row_eq [OF ws' r'] obtain y' where
    y': "decode_row ?q' ?pc = Inr y'" "length y' = dim q"
    "\<And>i. i < dim q \<Longrightarrow> val (y' ! i) =
        (\<Sum>c < num_codebooks q div 2. val (merged_centers q ! c ! nat (?pc ! c) ! i))"
    by auto
  have "val (y' ! i) = val (y ! i)" if i: "i < dim q" for i
  proof -
    have summand: "val (merged_centers q ! c ! nat (?pc ! c) ! i) =
        val (centers q ! (2 * c) ! nat (code ! (2 * c)) ! i) +
        val (centers q ! (2 * c + 1) ! nat (code ! (2 * c + 1)) ! i)"
      if c: "c < num_codebooks q div 2" for c
    proof -
      have c2: "2 * c < num_codebooks q" "2 * c + 1 < num_codebooks q" using c by auto
      then have b: "0 \<le> code ! (2 * c)" "code ! (2 * c) < int ?K"
        "0 \<le> code ! (2 * c + 1)" "code ! (2 * c + 1) < int ?K"
        using r len by (simp_all add: in_range_def list_all_length)
      have pc: "nat (?pc ! c) = nat (code ! (2 * c)) * ?K + nat (code ! (2 * c + 1))"
        using pair_index(1) [OF b] c len by (simp add: paired_code_nth)
      have l1: "length (centers q ! (2 * c) ! nat (code ! (2 * c))) = dim q"
        using well_shapedD(3) [OF ws c2(1) pair_index(2) [OF b]] .
      have l2: "length (centers q ! (2 * c + 1) ! nat (code ! (2 * c + 1))) = dim q"
        using well_shapedD(3) [OF ws c2(2) pair_index(3) [OF b]] .
      show ?thesis
        unfolding pc merged_centers_nth [OF c pair_index(2,3) [OF b]]
        using l1 l2 i by simp
    qed
    have "val (y' ! i) = (\<Sum>c < num_codebooks q div 2.
        val (centers q ! (2 * c) ! nat (code ! (2 * c)) ! i) +
        val (centers q ! (2 * c + 1) ! nat (code ! (2 * c + 1)) ! i))"
      using y'(3) [OF i] summand by simp
    also have "\<dots> = (\<Sum>c < 2 * (num_codebooks q div 2). val (centers q ! c ! nat (code ! c) ! i))"
      by (rule sum_pairs [symmetric])
    also have "\<dots> = val (y ! i)" using ev y(3) [OF i] by simp
    finally show ?thesis .
  qed
  then have "map val y' = map val y"
    using y(2) y'(2) by (intro nth_equalityI) simp_all
  with y(1) y'(1) show ?thesis by blast
qed

lemma decode_merged:
  assumes ws: "well_shaped q" and ev: "even (num_codebooks q)"
    and r: "list_all (in_range q) codes"
  shows "\<exists>ys ys'. decode q codes = Inr ys \<and>
     decode \<lparr>dim = dim q, codebook_size = codebook_size q ^ 2,
         num_codebooks = num_codebooks q div 2, centers = merged_centers q,
         frame_entropy_scale = s\<rparr> (map (paired_code (codebook_size q)) codes) = Inr ys' \<and>
     map (map val) ys' = map (map val) ys"
  using r
proof (induction codes)
  case Nil
  then show ?case by (simp add: decode_def)
next
  case (Cons code codes)
  then obtain ys ys' where "decode q codes = Inr ys"
    "decode \<lparr>dim = dim q, codebook_size = codebook_size q ^ 2,
         num_codebooks = num_codebooks q div 2, centers = merged_centers q,
         frame_entropy_scale = s\<rparr> (map (paired_code (codebook_size q)) codes) = Inr ys'"
    "map (map val) ys' = map (map val) ys" by auto
  moreover from Cons.prems have "in_range q code" by simp
  from decode_row_merged [OF ws ev this, of s] obtain y y' where
    "decode_row q code = Inr y"
    "decode_row \<lparr>dim = dim q, codebook_size = codebook_size q ^ 2,
         num_codebooks = num_codebooks q div 2, centers = merged_centers q,
         frame_entropy_scale = s\<rparr> (paired_code (codebook_size q) code) = Inr y'"
    "map val y' = map val y" by blast
  ultimately show ?case by (simp add: decode_def)
qed

text \<open>
  Claim C2. For a well-shaped quantizer with an even number of codebooks,
  \<^verbatim>\<open>get_product_quantizer\<close> returns a quantizer with half as many codebooks of
  \<open>K\<^sup>2\<close> centers each, the center \<open>k1 * K + k2\<close> of output codebook \<open>c\<close> has the value
  of center \<open>k1\<close> of input codebook \<open>2 c\<close> plus center \<open>k2\<close> of input codebook \<open>2 c + 1\<close>, and
  decoding the paired codes with the merged quantizer gives the values that the original
  quantizer decodes from the original codes.
\<close>

theorem get_product_quantizer_merges_pairs:
  assumes "well_shaped q" and "even (num_codebooks q)"
  shows "\<exists>q'. get_product_quantizer q randn = Inr q' \<and>
     num_codebooks q' = num_codebooks q div 2 \<and>
     codebook_size q' = codebook_size q ^ 2 \<and>
     dim q' = dim q \<and>
     (\<forall>c < num_codebooks q div 2. \<forall>k1 < codebook_size q. \<forall>k2 < codebook_size q.
        map val (centers q' ! c ! (k1 * codebook_size q + k2)) =
        map2 (+) (map val (centers q ! (2 * c) ! k1)) (map val (centers q ! (2 * c + 1) ! k2))) \<and>
     (\<forall>codes. list_all (in_range q) codes \<longrightarrow>
        (\<exists>ys ys'. decode q codes = Inr ys \<and>
           decode q' (map (paired_code (codebook_size q)) codes) = Inr ys' \<and>
           map (map val) ys' = map (map val) ys))"
proof -
  let ?q' = "\<lparr>dim = dim q, codebook_size = codebook_size q ^ 2,
      num_codebooks = num_codebooks q div 2, centers = merged_centers q,
      frame_entropy_scale = parameter FrameEntropyScale 0\<rparr>"
  have "map val (centers ?q' ! c ! (k1 * codebook_size q + k2)) =
        map2 (+) (map val (centers q ! (2 * c) ! k1)) (map val (centers q ! (2 * c + 1) ! k2))"
    if "c < num_codebooks q div 2" "k1 < codebook_size q" "k2 < codebook_size q" for c k1 k2
    using merged_centers_nth [OF that]
    by (simp add: comp_def zip_map_map split_def del: One_nat_def)
  moreover have "\<exists>ys ys'. decode q codes = Inr ys \<and>
           decode ?q' (map (paired_code (codebook_size q)) codes) = Inr ys' \<and>
           map (map val) ys' = map (map val) ys" if "list_all (in_range q) codes" for codes
    using decode_merged [OF assms that] .
  ultimately show ?thesis
    unfolding get_product_quantizer_eq [OF assms(1)] by (intro exI [of _ ?q']) simp
qed

theorem get_product_quantizer_merges_pairs_witness:
  "well_shaped example_pair \<and> even (num_codebooks example_pair) \<and>
   (\<exists>q'. get_product_quantizer example_pair (\<lambda>c k i. 0) = Inr q' \<and>
      num_codebooks q' = 1 \<and> codebook_size q' = 4 \<and>
      map val (centers q' ! 0 ! 2) = [0, 2] \<and>
      (\<exists>ys ys'. decode example_pair [[1, 0]] = Inr ys \<and> decode q' [[2]] = Inr ys' \<and>
         map (map val) ys' = map (map val) ys))"
proof -
  have ws: "well_shaped example_pair" by (simp add: example_pair_def well_shaped_def)
  have ev: "even (num_codebooks example_pair)" by (simp add: example_pair_def)
  from get_product_quantizer_merges_pairs [OF ws ev, of "\<lambda>c k i. 0"] obtain q' where
    q': "get_product_quantizer example_pair (\<lambda>c k i. 0) = Inr q'"
      "num_codebooks q' = num_codebooks example_pair div 2"
      "codebook_size q' = codebook_size example_pair ^ 2"
    and cs: "\<And>c k1 k2. c < num_codebooks example_pair div 2 \<Longrightarrow> k1 < codebook_size example_pair \<Longrightarrow>
        k2 < codebook_size example_pair \<Longrightarrow>
        map val (centers q' ! c ! (k1 * codebook_size example_pair + k2)) =
        map2 (+) (map val (centers example_pair ! (2 * c) ! k1))
          (map val (centers example_pair ! (2 * c + 1) ! k2))"
    and dec: "\<And>codes. list_all (in_range example_pair) codes \<Longrightarrow>
        \<exists>ys ys'. decode example_pair codes = Inr ys \<and>
           decode q' (map (paired_code (codebook_size example_pair)) codes) = Inr ys' \<and>
           map (map val) ys' = map (map val) ys"
    by blast
  have "map val (centers q' ! 0 ! 2) = [0, 2]"
    using cs [of 0 1 0] by (simp add: example_pair_def)
  moreover have "\<exists>ys ys'. decode example_pair [[1, 0]] = Inr ys \<and> decode q' [[2]] = Inr ys' \<and>
         map (map val) ys' = map (map val) ys"
    using dec [of "[[1, 0]]"] by (simp add: example_pair_def in_range_def)
  ultimately show ?thesis using ws ev q' by (simp add: example_pair_def)
qed

lemma merged_centers_butlast:
  assumes "odd (num_codebooks q)" "length (centers q) = num_codebooks q"
  shows "merged_centers (q\<lparr>num_codebooks := num_codebooks q - 1, centers := butlast (centers q)\<rparr>) =
     merged_centers q"
proof -
  have h: "(num_codebooks q - Suc 0) div 2 = num_codebooks q div 2"
    using assms(1) by presburger
  have "merged_row (q\<lparr>num_codebooks := num_codebooks q - 1, centers := butlast (centers q)\<rparr>) c k =
      merged_row q c k" if "c < num_codebooks q div 2" for c k
  proof -
    have "2 * c < length (centers q) - 1" "2 * c + 1 < length (centers q) - 1"
      using that assms by presburger+
    then show ?thesis by (simp add: merged_row_def nth_butlast)
  qed
  then show ?thesis by (simp add: merged_centers_def h cong: map_cong)
qed

text \<open>
  Claim C9. For a well-shaped quantizer with an odd number of codebooks,
  \<^verbatim>\<open>get_product_quantizer\<close> raises nothing: it returns a quantizer with
  \<open>num_codebooks div 2\<close> codebooks of \<open>K\<^sup>2\<close> centers each, the center \<open>k1 * K + k2\<close> of output
  codebook \<open>c\<close> has the value of center \<open>k1\<close> of input codebook \<open>2 c\<close> plus center \<open>k2\<close> of
  input codebook \<open>2 c + 1\<close>, which are among the first \<open>num_codebooks - 1\<close> codebooks, and
  the result is the one that it returns when the last codebook has been removed from the
  input beforehand.
\<close>

theorem get_product_quantizer_odd:
  assumes "well_shaped q" and "odd (num_codebooks q)"
  shows "\<exists>q'. get_product_quantizer q randn = Inr q' \<and>
     num_codebooks q' = num_codebooks q div 2 \<and>
     length (centers q') = num_codebooks q div 2 \<and>
     codebook_size q' = codebook_size q ^ 2 \<and>
     dim q' = dim q \<and>
     (\<forall>c < num_codebooks q div 2. length (centers q' ! c) = codebook_size q ^ 2 \<and>
        (\<forall>k1 < codebook_size q. \<forall>k2 < codebook_size q.
           map val (centers q' ! c ! (k1 * codebook_size q + k2)) =
           map2 (+) (map val (centers q ! (2 * c) ! k1)) (map val (centers q ! (2 * c + 1) ! k2)))) \<and>
     get_product_quantizer
       (q\<lparr>num_codebooks := num_codebooks q - 1, centers := butlast (centers q)\<rparr>) randn = Inr q'"
proof -
  let ?q2 = "q\<lparr>num_codebooks := num_codebooks q - 1, centers := butlast (centers q)\<rparr>"
  let ?q' = "\<lparr>dim = dim q, codebook_size = codebook_size q ^ 2,
      num_codebooks = num_codebooks q div 2, centers = merged_centers q,
      frame_entropy_scale = parameter FrameEntropyScale 0\<rparr>"
  have len: "length (centers q) = num_codebooks q" using assms(1) by (simp add: well_shaped_def)
  have "list_all (\<lambda>cb. length cb = codebook_size q \<and> list_all (\<lambda>v. length v = dim q) cb)
      (butlast (centers q))"
    using assms(1) by (auto simp: well_shaped_def list_all_iff dest: in_set_butlastD)
  then have ws2: "well_shaped ?q2" using assms(1) by (simp add: well_shaped_def)
  have h: "(num_codebooks q - Suc 0) div 2 = num_codebooks q div 2"
    using assms(2) by presburger
  have g: "get_product_quantizer q randn = Inr ?q'"
    by (simp add: get_product_quantizer_eq [OF assms(1)])
  have g2: "get_product_quantizer ?q2 randn = Inr ?q'"
    unfolding get_product_quantizer_eq [OF ws2]
    using merged_centers_butlast [OF assms(2) len] by (simp add: h)
  have f: "map val (centers ?q' ! c ! (k1 * codebook_size q + k2)) =
        map2 (+) (map val (centers q ! (2 * c) ! k1)) (map val (centers q ! (2 * c + 1) ! k2))"
    if "c < num_codebooks q div 2" "k1 < codebook_size q" "k2 < codebook_size q" for c k1 k2
    using merged_centers_nth [OF that]
    by (simp add: comp_def zip_map_map split_def del: One_nat_def)
  have l: "length (centers ?q') = num_codebooks q div 2" by (simp add: merged_centers_def)
  have lc: "length (centers ?q' ! c) = codebook_size q ^ 2" if "c < num_codebooks q div 2" for c
    using that by (simp add: merged_centers_def)
  show ?thesis
    using g g2 f l lc by (intro exI [of _ ?q']) simp
qed

theorem get_product_quantizer_odd_witness:
  "well_shaped example_triple \<and> odd (num_codebooks example_triple) \<and>
   (\<exists>q'. get_product_quantizer example_triple (\<lambda>c k i. 0) = Inr q' \<and> num_codebooks q' = 1 \<and>
      length (centers q') = 1 \<and> codebook_size q' = 4 \<and>
      map (map val) (centers q' ! 0) = [[11], [21], [12], [22]] \<and>
      get_product_quantizer
        (example_triple\<lparr>num_codebooks := 2, centers := butlast (centers example_triple)\<rparr>)
        (\<lambda>c k i. 0) = Inr q')"
proof -
  have ws: "well_shaped example_triple" by (simp add: example_triple_def well_shaped_def)
  have od: "odd (num_codebooks example_triple)" by (simp add: example_triple_def)
  from get_product_quantizer_odd [OF ws od, of "\<lambda>c k i. 0"] obtain q' where
    q': "get_product_quantizer example_triple (\<lambda>c k i. 0) = Inr q'"
      "num_codebooks q' = num_codebooks example_triple div 2"
      "length (centers q') = num_codebooks example_triple div 2"
      "codebook_size q' = codebook_size example_triple ^ 2"
      "get_product_quantizer
        (example_triple\<lparr>num_codebooks := num_codebooks example_triple - 1,
           centers := butlast (centers example_triple)\<rparr>) (\<lambda>c k i. 0) = Inr q'"
    and lc: "\<And>c. c < num_codebooks example_triple div 2 \<Longrightarrow>
        length (centers q' ! c) = codebook_size example_triple ^ 2"
    and cs: "\<And>c k1 k2. c < num_codebooks example_triple div 2 \<Longrightarrow> k1 < codebook_size example_triple \<Longrightarrow>
        k2 < codebook_size example_triple \<Longrightarrow>
        map val (centers q' ! c ! (k1 * codebook_size example_triple + k2)) =
        map2 (+) (map val (centers example_triple ! (2 * c) ! k1))
          (map val (centers example_triple ! (2 * c + 1) ! k2))"
    by blast
  have c: "map val (centers q' ! 0 ! 0) = [11]" "map val (centers q' ! 0 ! 1) = [21]"
    "map val (centers q' ! 0 ! 2) = [12]" "map val (centers q' ! 0 ! 3) = [22]"
    using cs [of 0 0 0] cs [of 0 0 1] cs [of 0 1 0] cs [of 0 1 1]
    by (simp_all add: example_triple_def)
  have l4: "length (centers q' ! 0) = 4" using lc [of 0] by (simp add: example_triple_def)
  have all: "map (map val) (centers q' ! 0) = [[11], [21], [12], [22]]"
  proof (rule nth_equalityI)
    show "length (map (map val) (centers q' ! 0)) = length [[11], [21], [12], [22 :: real]]"
      using l4 by simp
    fix i assume "i < length (map (map val) (centers q' ! 0))"
    then have i: "i < 4" using l4 by simp
    then have "i = 0 \<or> i = 1 \<or> i = 2 \<or> i = 3" by arith
    then show "map (map val) (centers q' ! 0) ! i = [[11], [21], [12], [22]] ! i"
      using c l4 by auto
  qed
  show ?thesis using ws od q' all by (simp add: example_triple_def)
qed

section \<open>refine_indexes\<close>

lemma argmax_less: "s \<noteq> [] \<Longrightarrow> argmax s < length s"
proof (induction s)
  case Nil
  then show ?case by simp
next
  case (Cons a as)
  then show ?case by (cases "as = []") auto
qed

lemma argmax_max: "j < length s \<Longrightarrow> val (s ! j) \<le> val (s ! argmax s)"
proof (induction s arbitrary: j)
  case Nil
  then show ?case by simp
next
  case (Cons a as)
  show ?case
  proof (cases "list_all (\<lambda>b. val b \<le> val a) as")
    case True
    then show ?thesis using Cons.prems by (cases j) (auto simp: list_all_length)
  next
    case False
    then obtain i where i: "i < length as" "val a < val (as ! i)"
      by (auto simp: list_all_length not_le)
    with Cons.IH [of i] have "val a \<le> val (as ! argmax as)" by simp
    with False Cons show ?thesis by (cases j) auto
  qed
qed

lemma vsum_val_nth:
  assumes "\<And>c. c < n \<Longrightarrow> length (f c) = d" "i < d"
  shows "val (vsum d (map f [0..<n]) ! i) = (\<Sum>c < n. val (f c ! i))"
proof -
  have "\<And>v. v \<in> set (map f [0..<n]) \<Longrightarrow> length v = d" using assms(1) by auto
  from vsum_nth [of "map f [0..<n]" d i, OF this assms(2)]
  have "val (vsum d (map f [0..<n]) ! i) = sum_list (map (\<lambda>c. val (f c ! i)) [0..<n])"
    by (simp add: comp_def)
  also have "\<dots> = (\<Sum>c < n. val (f c ! i))"
    by (simp add: interv_sum_list_conv_sum_set_nat atLeast0LessThan)
  finally show ?thesis .
qed

lemma in_rangeD:
  assumes "in_range q code" "c < num_codebooks q"
  shows "0 \<le> code ! c" "code ! c < int (codebook_size q)" "nat (code ! c) < codebook_size q"
proof -
  show "0 \<le> code ! c" "code ! c < int (codebook_size q)"
    using assms by (simp_all add: in_range_def list_all_length)
  then show "nat (code ! c) < codebook_size q" by linarith
qed

lemma in_range_update:
  assumes "in_range q code" "k < codebook_size q"
  shows "in_range q (code[c := int k])"
proof -
  have "0 \<le> code[c := int k] ! n \<and> code[c := int k] ! n < int (codebook_size q)"
    if "n < length code" for n
    using that assms by (cases "n = c") (simp_all add: in_range_def list_all_length)
  then show ?thesis using assms(1) by (simp add: in_range_def list_all_length)
qed

lemma val_sumsq: "val (sumsq v) = sum_list (map (\<lambda>r. r ^ 2) (map val v))"
  by (simp add: sumsq_def comp_def)

lemma modified_errs_eq:
  assumes ws: "well_shaped q" and r: "in_range q code" and x: "length x = dim q"
  shows "\<exists>errs. modified_errs q x code = Inr errs \<and> length errs = num_codebooks q \<and>
    (\<forall>c < num_codebooks q. length (errs ! c) = codebook_size q \<and>
       (\<forall>k < codebook_size q.
          reconstruction_error q x (code[c := int k]) = Inr (val (sumsq (errs ! c ! k)))))"
proof -
  let ?C = "num_codebooks q" and ?K = "codebook_size q" and ?d = "dim q"
  let ?cur = "map (\<lambda>c. centers q ! c ! nat (code ! c)) [0..<?C]"
  let ?x_err = "map2 (-) (vsum ?d ?cur) x"
  let ?errs = "map2 (\<lambda>cb cc. map (\<lambda>center. map2 (+) (map2 (-) ?x_err cc) center) cb)
                     (centers q) ?cur"
  have len: "length (centers q) = ?C" "length code = ?C"
    using ws r by (simp_all add: well_shaped_def in_range_def)
  have rng: "nat (code ! c) < ?K" if "c < ?C" for c
    using in_rangeD(3) [OF r that] .
  have cur_len: "\<And>v. v \<in> set ?cur \<Longrightarrow> length v = ?d"
    using well_shapedD(3) [OF ws] rng by auto
  have me: "modified_errs q x code = Inr ?errs"
    by (simp add: modified_errs_def cur_centers_eq [OF ws r])
  have sum_len: "length (vsum ?d ?cur) = ?d" using cur_len by (rule vsum_length)
  have cur_sum: "val (vsum ?d ?cur ! i) = (\<Sum>c < ?C. val (centers q ! c ! nat (code ! c) ! i))"
    if "i < ?d" for i
    using well_shapedD(3) [OF ws _ rng] that by (intro vsum_val_nth) simp_all
  have "reconstruction_error q x (code[c := int k]) = Inr (val (sumsq (?errs ! c ! k)))"
    if c: "c < ?C" and k: "k < ?K" for c k
  proof -
    let ?code' = "code[c := int k]"
    have r': "in_range q ?code'" using r k by (rule in_range_update)
    from decode_row_eq [OF ws r'] obtain y where
      y: "decode_row q ?code' = Inr y" "length y = ?d"
      "\<And>i. i < ?d \<Longrightarrow> val (y ! i) = (\<Sum>c' < ?C. val (centers q ! c' ! nat (?code' ! c') ! i))"
      by blast
    have lk: "length (centers q ! c ! k) = ?d" using well_shapedD(3) [OF ws c k] .
    have lc: "length (centers q ! c ! nat (code ! c)) = ?d"
      using well_shapedD(3) [OF ws c rng [OF c]] .
    have e: "?errs ! c ! k =
        map2 (+) (map2 (-) ?x_err (centers q ! c ! nat (code ! c))) (centers q ! c ! k)"
      using c k len well_shapedD(2) [OF ws c] by simp
    have "val (?errs ! c ! k ! i) = val (map2 (-) y x ! i)" if i: "i < ?d" for i
    proof -
      let ?f = "\<lambda>c'. val (centers q ! c' ! nat (code ! c') ! i)"
      have "(\<Sum>c' < ?C. val (centers q ! c' ! nat (?code' ! c') ! i)) =
          (\<Sum>c' \<in> {..<?C} - {c}. val (centers q ! c' ! nat (?code' ! c') ! i)) +
          val (centers q ! c ! nat (?code' ! c) ! i)"
        using c by (subst sum.remove [of _ c]) (simp_all add: add.commute)
      also have "(\<Sum>c' \<in> {..<?C} - {c}. val (centers q ! c' ! nat (?code' ! c') ! i)) =
          (\<Sum>c' \<in> {..<?C} - {c}. ?f c')"
        by (rule sum.cong) simp_all
      also have "\<dots> = (\<Sum>c' < ?C. ?f c') - ?f c"
        using c by (subst (2) sum.remove [of _ c]) simp_all
      finally have "val (y ! i) = (\<Sum>c' < ?C. ?f c') - ?f c + val (centers q ! c ! k ! i)"
        using y(3) [OF i] c len by simp
      then show ?thesis
        using i x y(2) sum_len lk lc cur_sum [OF i] unfolding e by simp
    qed
    then have "map val (?errs ! c ! k) = map val (map2 (-) y x)"
      using x y(2) sum_len lk lc unfolding e by (intro nth_equalityI) simp_all
    then have "val (sumsq (?errs ! c ! k)) = val (sumsq (map2 (-) y x))"
      by (simp only: val_sumsq)
    then show ?thesis by (simp add: reconstruction_error_def y(1))
  qed
  moreover have "length (?errs ! c) = ?K" if "c < ?C" for c
    using that len well_shapedD(2) [OF ws that] by simp
  moreover have "length ?errs = ?C" using len by simp
  ultimately show ?thesis using me by blast
qed

lemma refine_row_no_worse:
  assumes ws: "well_shaped q" and r: "in_range q code" and x: "length x = dim q"
  shows "\<exists>new e0. refine_row q x code = Inr new \<and> in_range q new \<and>
     reconstruction_error q x code = Inr e0 \<and>
     (\<forall>c < num_codebooks q. \<exists>e1. reconstruction_error q x (code[c := new ! c]) = Inr e1 \<and> e1 \<le> e0)"
proof -
  let ?C = "num_codebooks q" and ?K = "codebook_size q"
  from modified_errs_eq [OF assms] obtain errs where
    errs: "modified_errs q x code = Inr errs" "length errs = ?C"
    "\<And>c. c < ?C \<Longrightarrow> length (errs ! c) = ?K"
    "\<And>c k. c < ?C \<Longrightarrow> k < ?K \<Longrightarrow>
        reconstruction_error q x (code[c := int k]) = Inr (val (sumsq (errs ! c ! k)))"
    by blast
  let ?neg = "map (map (\<lambda>e. - sumsq e)) errs"
  let ?new = "map (\<lambda>s. int (argmax s)) ?neg"
  have new: "refine_row q x code = Inr ?new" by (simp add: refine_row_def errs(1))
  have len: "length code = ?C" using r by (simp add: in_range_def)
  have rng: "0 \<le> code ! c" "nat (code ! c) < ?K" if "c < ?C" for c
    using in_rangeD(1,3) [OF r that] .
  have am: "argmax (?neg ! c) < ?K" if "c < ?C" for c
  proof -
    have "?neg ! c \<noteq> []" using that errs(2) errs(3) [OF that] rng(2) [OF that] by auto
    from argmax_less [OF this] show ?thesis using that errs(2,3) by simp
  qed
  obtain y where y: "decode_row q code = Inr y" using decode_row_eq [OF ws r] by blast
  define e0 where "e0 = val (sumsq (map2 (-) y x))"
  have e0: "reconstruction_error q x code = Inr e0"
    by (simp add: reconstruction_error_def y e0_def)
  have "\<exists>e1. reconstruction_error q x (code[c := ?new ! c]) = Inr e1 \<and> e1 \<le> e0" if c: "c < ?C" for c
  proof -
    let ?j = "nat (code ! c)"
    have "code[c := int ?j] = code" using rng(1) [OF c] by simp
    with errs(4) [OF c rng(2) [OF c]] e0 have old: "e0 = val (sumsq (errs ! c ! ?j))" by simp
    have "?j < length (?neg ! c)" using c errs(2,3) rng(2) by simp
    from argmax_max [OF this] have "val (?neg ! c ! ?j) \<le> val (?neg ! c ! argmax (?neg ! c))" .
    then have "val (sumsq (errs ! c ! argmax (?neg ! c))) \<le> val (sumsq (errs ! c ! ?j))"
      using c errs(2,3) rng(2) am [OF c] by simp
    moreover have "reconstruction_error q x (code[c := ?new ! c]) =
        Inr (val (sumsq (errs ! c ! argmax (?neg ! c))))"
      using errs(4) [OF c am [OF c]] c errs(2) by simp
    ultimately show ?thesis using old by simp
  qed
  moreover have "in_range q ?new"
    using am errs(2) by (simp add: in_range_def list_all_length)
  ultimately show ?thesis using new e0 by blast
qed

lemma sequence_map2_Inr:
  assumes "length xs = length ys"
    and "\<And>b. b < length ys \<Longrightarrow> \<exists>z. f (xs ! b) (ys ! b) = Inr z \<and> P b z"
  shows "\<exists>zs. sequence (map2 f xs ys) = Inr zs \<and> length zs = length ys \<and>
     (\<forall>b < length ys. P b (zs ! b))"
proof -
  define g where "g b = projr (f (xs ! b) (ys ! b))" for b
  have g: "f (xs ! b) (ys ! b) = Inr (g b) \<and> P b (g b)" if "b < length ys" for b
    using assms(2) [OF that] by (auto simp: g_def)
  have "map2 f xs ys = map (\<lambda>b. f (xs ! b) (ys ! b)) [0..<length ys]"
    using assms(1) by (intro nth_equalityI) simp_all
  moreover have "sequence (map (\<lambda>b. f (xs ! b) (ys ! b)) [0..<length ys]) =
      Inr (map g [0..<length ys])"
    using g by (intro sequence_map_Inr) simp
  ultimately show ?thesis using g by (intro exI [of _ "map g [0..<length ys]"]) simp
qed

text \<open>
  Claim C1, as amended. \<^verbatim>\<open>refine_indexes\<close> chooses the index of every codebook against
  the same residual, so the claim holds one codebook at a time: for every row \<open>x\<close> and every
  code tuple with components in \<open>[0, codebook_size)\<close>, the refinement returns a code tuple in
  range, and replacing the component of any single codebook by its refined index gives a
  squared reconstruction error that is at most the error of the input tuple. With a single
  codebook the refined tuple itself is no worse than the input tuple.
\<close>

theorem refine_indexes_no_worse_per_codebook:
  assumes "well_shaped q" and "length x = length indexes"
    and "list_all (\<lambda>r. length r = dim q) x" and "list_all (in_range q) indexes"
  shows "\<exists>new. refine_indexes q x indexes = Inr new \<and> length new = length indexes \<and>
     (\<forall>b < length indexes. in_range q (new ! b) \<and>
        (\<exists>e0. reconstruction_error q (x ! b) (indexes ! b) = Inr e0 \<and>
           (\<forall>c < num_codebooks q. \<exists>e1.
              reconstruction_error q (x ! b) ((indexes ! b)[c := new ! b ! c]) = Inr e1 \<and> e1 \<le> e0) \<and>
           (num_codebooks q = 1 \<longrightarrow> (\<exists>e1.
              reconstruction_error q (x ! b) (new ! b) = Inr e1 \<and> e1 \<le> e0))))"
proof -
  let ?P = "\<lambda>b new. in_range q new \<and>
        (\<exists>e0. reconstruction_error q (x ! b) (indexes ! b) = Inr e0 \<and>
           (\<forall>c < num_codebooks q. \<exists>e1.
              reconstruction_error q (x ! b) ((indexes ! b)[c := new ! c]) = Inr e1 \<and> e1 \<le> e0) \<and>
           (num_codebooks q = 1 \<longrightarrow> (\<exists>e1.
              reconstruction_error q (x ! b) new = Inr e1 \<and> e1 \<le> e0)))"
  have "\<exists>new. refine_row q (x ! b) (indexes ! b) = Inr new \<and> ?P b new" if b: "b < length indexes" for b
  proof -
    have r: "in_range q (indexes ! b)" and xl: "length (x ! b) = dim q"
      using assms(2,3,4) b by (simp_all add: list_all_length)
    from refine_row_no_worse [OF assms(1) r xl] obtain new e0 where
      n: "refine_row q (x ! b) (indexes ! b) = Inr new" "in_range q new"
      "reconstruction_error q (x ! b) (indexes ! b) = Inr e0"
      "\<And>c. c < num_codebooks q \<Longrightarrow>
         \<exists>e1. reconstruction_error q (x ! b) ((indexes ! b)[c := new ! c]) = Inr e1 \<and> e1 \<le> e0"
      by blast
    have "\<exists>e1. reconstruction_error q (x ! b) new = Inr e1 \<and> e1 \<le> e0" if one: "num_codebooks q = 1"
    proof -
      have "length new = 1" "length (indexes ! b) = 1"
        using n(2) r one by (simp_all add: in_range_def)
      then have "(indexes ! b)[0 := new ! 0] = new"
        by (intro nth_equalityI) simp_all
      with n(4) [of 0] one show ?thesis by simp
    qed
    with n show ?thesis by blast
  qed
  from sequence_map2_Inr [where f = "refine_row q" and P = ?P, OF assms(2) this]
  show ?thesis by (simp add: refine_indexes_def)
qed

theorem refine_indexes_no_worse_per_codebook_witness:
  "well_shaped example_overshoot \<and> list_all (in_range example_overshoot) [[0, 0]] \<and>
   (\<exists>new e0 e1. refine_indexes example_overshoot [[const 3]] [[0, 0]] = Inr new \<and>
      reconstruction_error example_overshoot [const 3] [0, 0] = Inr e0 \<and>
      reconstruction_error example_overshoot [const 3] ([0, 0][1 := new ! 0 ! 1]) = Inr e1 \<and>
      e1 \<le> e0)"
proof -
  have ws: "well_shaped example_overshoot"
    by (simp add: example_overshoot_def well_shaped_def)
  have r: "list_all (in_range example_overshoot) [[0, 0]]"
    by (simp add: example_overshoot_def in_range_def)
  have l: "length [[const 3]] = length [[0, 0 :: int]]" by simp
  have xl: "list_all (\<lambda>r. length r = dim example_overshoot) [[const 3]]"
    by (simp add: example_overshoot_def)
  from refine_indexes_no_worse_per_codebook [OF ws l xl r] obtain new where
    n: "refine_indexes example_overshoot [[const 3]] [[0, 0]] = Inr new"
    and p: "\<And>b. b < length [[0, 0 :: int]] \<Longrightarrow>
        (\<exists>e0. reconstruction_error example_overshoot ([[const 3]] ! b) ([[0, 0]] ! b) = Inr e0 \<and>
           (\<forall>c < num_codebooks example_overshoot. \<exists>e1.
              reconstruction_error example_overshoot ([[const 3]] ! b)
                (([[0, 0]] ! b)[c := new ! b ! c]) = Inr e1 \<and> e1 \<le> e0))"
    by blast
  from p [of 0] obtain e0 where
    e0: "reconstruction_error example_overshoot [const 3] [0, 0] = Inr e0"
    and "\<And>c. c < num_codebooks example_overshoot \<Longrightarrow> \<exists>e1.
        reconstruction_error example_overshoot [const 3] ([0, 0][c := new ! 0 ! c]) = Inr e1 \<and> e1 \<le> e0"
    by auto
  from this(2) [of 1] obtain e1 where
    "reconstruction_error example_overshoot [const 3] ([0, 0][1 := new ! 0 ! 1]) = Inr e1" "e1 \<le> e0"
    by (auto simp: example_overshoot_def)
  with ws r n e0 show ?thesis by blast
qed

text \<open>
  Claim C1, as stated, fails when two codebooks move at once: with centers \<open>0\<close> and \<open>4\<close> in
  both of two codebooks and \<open>x = 3\<close>, the tuple \<open>(0, 0)\<close> has squared error \<open>9\<close>; each codebook
  alone prefers candidate \<open>1\<close> (error \<open>1\<close>), and the refined tuple \<open>(1, 1)\<close> reconstructs \<open>8\<close>,
  with squared error \<open>25\<close>.
\<close>

theorem refine_indexes_can_increase_error:
  "well_shaped example_overshoot \<and> in_range example_overshoot [0, 0] \<and>
   refine_indexes example_overshoot [[const 3]] [[0, 0]] = Inr [[1, 1]] \<and>
   reconstruction_error example_overshoot [const 3] [0, 0] = Inr 9 \<and>
   reconstruction_error example_overshoot [const 3] [1, 1] = Inr 25"
  by (simp add: refine_indexes_def refine_row_def modified_errs_def cur_centers_def gather_def
      example_overshoot_def vsum_def sumsq_def reconstruction_error_def decode_row_def
      well_shaped_def in_range_def)

section \<open>Softmax and entropy over the reals\<close>

lemma sum_list_exp_pos: "z \<noteq> [] \<Longrightarrow> 0 < sum_list (map exp (z :: real list))"
proof (induction z)
  case Nil
  then show ?case by simp
next
  case (Cons a z)
  have "0 \<le> sum_list (map exp z)" by (rule sum_list_nonneg) auto
  then show ?case by (simp add: add_pos_nonneg)
qed

lemma softmax_real_length [simp]: "length (softmax_real z) = length z"
  by (simp add: softmax_real_def)

lemma softmax_real_pos: "p \<in> set (softmax_real z) \<Longrightarrow> 0 < p"
proof -
  assume "p \<in> set (softmax_real z)"
  then obtain a where "a \<in> set z" "p = exp a / sum_list (map exp z)"
    by (auto simp: softmax_real_def)
  moreover from this have "z \<noteq> []" by auto
  ultimately show ?thesis using sum_list_exp_pos [of z] by simp
qed

lemma sum_list_divide_const:
  fixes f :: "'a \<Rightarrow> real"
  shows "sum_list (map (\<lambda>x. f x / c) xs) = sum_list (map f xs) / c"
  by (induction xs) (simp_all add: add_divide_distrib)

lemma softmax_real_sum: "z \<noteq> [] \<Longrightarrow> sum_list (softmax_real z) = 1"
  using sum_list_exp_pos [of z] by (simp add: softmax_real_def sum_list_divide_const)

lemma softmax_real_shift: "softmax_real (map (\<lambda>a. a - t) z) = softmax_real z"
proof -
  have "sum_list (map exp (map (\<lambda>a. a - t) z)) = sum_list (map exp z) / exp t"
    by (simp add: comp_def exp_diff sum_list_divide_const)
  then show ?thesis
    by (simp add: softmax_real_def comp_def exp_diff)
qed

lemma ln_softmax_real:
  assumes "k < length z"
  shows "ln (softmax_real z ! k) = z ! k - ln (sum_list (map exp z))"
proof -
  have "z \<noteq> []" using assms by auto
  then have "0 < sum_list (map exp z)" by (rule sum_list_exp_pos)
  then show ?thesis using assms by (simp add: softmax_real_def ln_div)
qed

lemma member_le_sum_list_real:
  fixes ps :: "real list"
  assumes "\<And>p. p \<in> set ps \<Longrightarrow> 0 \<le> p" "p \<in> set ps"
  shows "p \<le> sum_list ps"
  using assms
proof (induction ps)
  case Nil
  then show ?case by simp
next
  case (Cons a ps)
  have nn: "0 \<le> sum_list ps" using Cons.prems(1) by (intro sum_list_nonneg) simp
  show ?case
  proof (cases "p = a")
    case True
    then show ?thesis using nn by simp
  next
    case False
    then have "p \<le> sum_list ps" using Cons by auto
    moreover have "0 \<le> a" using Cons.prems(1) by simp
    ultimately show ?thesis by simp
  qed
qed

lemma entropy_nonneg:
  fixes ps :: "real list"
  assumes pos: "\<And>p. p \<in> set ps \<Longrightarrow> 0 < p" and one: "sum_list ps = 1"
  shows "sum_list (map (\<lambda>p. ln p * p) ps) \<le> 0"
proof (rule sum_list_nonpos)
  fix t assume "t \<in> set (map (\<lambda>p. ln p * p) ps)"
  then obtain p where p: "p \<in> set ps" "t = ln p * p" by auto
  have "p \<le> sum_list ps" using pos p(1) by (intro member_le_sum_list_real) (auto intro: less_imp_le)
  then have "ln p \<le> 0" using pos [OF p(1)] one by simp
  then show "t \<le> 0" using pos [OF p(1)] p(2) by (simp add: mult_nonpos_nonneg)
qed

lemma entropy_le_ln:
  fixes ps :: "real list"
  assumes pos: "\<And>p. p \<in> set ps \<Longrightarrow> 0 < p" and one: "sum_list ps = 1"
  shows "- ln (real (length ps)) \<le> sum_list (map (\<lambda>p. ln p * p) ps)"
proof -
  let ?n = "real (length ps)"
  have n: "0 < ?n" using one by (cases ps) simp_all
  have "sum_list (map (\<lambda>p. - (ln p * p) - p * ln ?n) ps) \<le> sum_list (map (\<lambda>p. 1 / ?n - p) ps)"
  proof (rule sum_list_mono)
    fix p assume "p \<in> set ps"
    then have p: "0 < p" by (rule pos)
    then have "ln (1 / (?n * p)) \<le> 1 / (?n * p) - 1"
      using n by (intro ln_le_minus_one) simp
    then have "p * ln (1 / (?n * p)) \<le> p * (1 / (?n * p) - 1)"
      using p by (intro mult_left_mono) simp_all
    moreover have eq: "ln (1 / (?n * p)) = - ln ?n - ln p"
      using p n by (simp add: ln_div ln_mult)
    have "p * ln (1 / (?n * p)) = - (ln p * p) - p * ln ?n"
      unfolding eq by (simp add: algebra_simps)
    moreover have "p * (1 / (?n * p) - 1) = 1 / ?n - p"
      using p n by (simp add: field_simps)
    ultimately show "- (ln p * p) - p * ln ?n \<le> 1 / ?n - p"
      by linarith
  qed
  also have "sum_list (map (\<lambda>p. 1 / ?n - p) ps) = 0"
    using n one by (simp add: sum_list_subtractf sum_list_triv)
  finally have "- sum_list (map (\<lambda>p. ln p * p) ps) - sum_list ps * ln ?n \<le> 0"
    by (simp add: sum_list_subtractf sum_list_mult_const uminus_sum_list_map o_def)
  then show ?thesis using one by simp
qed

lemma mean_bounds:
  fixes xs :: "real list"
  assumes "xs \<noteq> []" "\<And>x. x \<in> set xs \<Longrightarrow> lo \<le> x" "\<And>x. x \<in> set xs \<Longrightarrow> x \<le> hi"
  shows "lo \<le> sum_list xs / real (length xs)" "sum_list xs / real (length xs) \<le> hi"
proof -
  have n: "0 < real (length xs)" using assms(1) by simp
  have "sum_list (map (\<lambda>x. lo) xs) \<le> sum_list (map (\<lambda>x. x) xs)"
    using assms(2) by (intro sum_list_mono) simp
  then have "real (length xs) * lo \<le> sum_list xs" by (simp add: sum_list_triv)
  then show "lo \<le> sum_list xs / real (length xs)" using n by (simp add: field_simps)
  have "sum_list (map (\<lambda>x. x) xs) \<le> sum_list (map (\<lambda>x. hi) xs)"
    using assms(3) by (intro sum_list_mono) simp
  then have "sum_list xs \<le> real (length xs) * hi" by (simp add: sum_list_triv)
  then show "sum_list xs / real (length xs) \<le> hi" using n by (simp add: field_simps)
qed

lemma sum_list_mono_eq:
  fixes f g :: "'a \<Rightarrow> real"
  assumes "\<And>x. x \<in> set xs \<Longrightarrow> f x \<le> g x" "sum_list (map f xs) = sum_list (map g xs)" "x \<in> set xs"
  shows "f x = g x"
  using assms
proof (induction xs)
  case Nil
  then show ?case by simp
next
  case (Cons a xs)
  have le: "sum_list (map f xs) \<le> sum_list (map g xs)"
    using Cons.prems(1) by (intro sum_list_mono) simp
  have a: "f a \<le> g a" using Cons.prems(1) by simp
  from Cons.prems(2) have "f a + sum_list (map f xs) = g a + sum_list (map g xs)" by simp
  with le a have "f a = g a" "sum_list (map f xs) = sum_list (map g xs)" by linarith+
  with Cons show ?case by auto
qed

lemma entropy_term:
  fixes p a :: real
  assumes p: "0 < p" and a: "0 < a"
  shows "p * ln a + (p - a) \<le> p * ln p"
    and "p * ln a + (p - a) = p * ln p \<Longrightarrow> p = a"
proof -
  have y: "0 < a / p" using p a by simp
  have l: "ln (a / p) \<le> a / p - 1" using y by (rule ln_le_minus_one)
  have d: "ln (a / p) = ln a - ln p" using p a by (simp add: ln_div)
  have m: "p * ln (a / p) \<le> p * (a / p - 1)"
    using l p by (intro mult_left_mono) simp_all
  have r: "p * (a / p - 1) = a - p" using p by (simp add: field_simps)
  have s: "p * ln (a / p) = p * ln a - p * ln p" unfolding d by (simp add: algebra_simps)
  from m r s show "p * ln a + (p - a) \<le> p * ln p" by linarith
  assume "p * ln a + (p - a) = p * ln p"
  with r s have "p * ln (a / p) = p * (a / p - 1)" by linarith
  then have "ln (a / p) = a / p - 1" using p by simp
  then have "a / p = 1" using y by (intro ln_eq_minus_one) simp_all
  then show "p = a" using p by simp
qed

lemma entropy_uniform:
  fixes ps :: "real list"
  assumes pos: "\<And>p. p \<in> set ps \<Longrightarrow> 0 < p" and one: "sum_list ps = 1"
  shows "- ln (real (length ps)) \<le> sum_list (map (\<lambda>p. p * ln p) ps)"
    and "sum_list (map (\<lambda>p. p * ln p) ps) = - ln (real (length ps)) \<longleftrightarrow>
         (\<forall>p \<in> set ps. p = 1 / real (length ps))"
proof -
  define a where "a = 1 / real (length ps)"
  define L where "L = ln a"
  let ?f = "\<lambda>p. p * L + (p - a)"
  let ?g = "\<lambda>p. p * ln p"
  have n: "0 < real (length ps)" using one by (cases ps) simp_all
  then have a: "0 < a" by (simp add: a_def)
  have na: "real (length ps) * a = 1" using n by (simp add: a_def)
  have La: "L = - ln (real (length ps))" using n by (simp add: L_def a_def ln_div)
  have fg: "?f p \<le> ?g p" if "p \<in> set ps" for p
    using entropy_term(1) [OF pos [OF that] a] by (simp add: L_def)
  have sf: "sum_list (map ?f ps) = L"
  proof -
    have "sum_list (map ?f ps) = sum_list ps * L + (sum_list ps - real (length ps) * a)"
      by (simp add: sum_list_addf sum_list_mult_const sum_list_subtractf sum_list_triv)
    then show ?thesis using one na by simp
  qed
  have "sum_list (map ?f ps) \<le> sum_list (map ?g ps)"
    using fg by (rule sum_list_mono)
  then have "L \<le> sum_list (map ?g ps)" by (simp only: sf)
  then show "- ln (real (length ps)) \<le> sum_list (map ?g ps)"
    by (simp only: La)
  have "sum_list (map ?g ps) = L \<longleftrightarrow> (\<forall>p \<in> set ps. p = a)"
  proof
    assume eq: "sum_list (map ?g ps) = L"
    show "\<forall>p \<in> set ps. p = a"
    proof
      fix p assume p: "p \<in> set ps"
      have "?f p = ?g p"
        using fg eq sf p by (intro sum_list_mono_eq [of ps ?f ?g p]) simp_all
      then show "p = a"
        unfolding L_def by (rule entropy_term(2) [OF pos [OF p] a])
    qed
  next
    assume "\<forall>p \<in> set ps. p = a"
    then have "map ?g ps = map (\<lambda>p. a * L) ps" by (simp add: L_def)
    then have "sum_list (map ?g ps) = real (length ps) * (a * L)"
      by (simp only: sum_list_triv)
    then show "sum_list (map ?g ps) = L" using na by (simp add: mult.assoc [symmetric])
  qed
  then show "sum_list (map ?g ps) = - ln (real (length ps)) \<longleftrightarrow>
         (\<forall>p \<in> set ps. p = 1 / real (length ps))"
    by (simp only: La a_def)
qed

lemma guard_term:
  fixes p :: real
  assumes p: "0 < p"
  shows "p * ln p \<le> p * ln (p + epsilon)" and "p * ln (p + epsilon) \<le> p * ln p + epsilon"
proof -
  have e: "0 < epsilon" by (simp add: epsilon_def)
  have pe: "0 < p + epsilon" using p e by simp
  have "ln p \<le> ln (p + epsilon)" using p e by simp
  then show "p * ln p \<le> p * ln (p + epsilon)" using p by simp
  have y: "0 < (p + epsilon) / p" using p pe by simp
  have l: "ln ((p + epsilon) / p) \<le> (p + epsilon) / p - 1" using y by (rule ln_le_minus_one)
  have d: "ln ((p + epsilon) / p) = ln (p + epsilon) - ln p" using p pe by (simp add: ln_div)
  have m: "p * ln ((p + epsilon) / p) \<le> p * ((p + epsilon) / p - 1)"
    using l p by (intro mult_left_mono) simp_all
  have r: "p * ((p + epsilon) / p - 1) = epsilon" using p by (simp add: field_simps)
  have s: "p * ln ((p + epsilon) / p) = p * ln (p + epsilon) - p * ln p"
    unfolding d by (simp add: algebra_simps)
  from m r s show "p * ln (p + epsilon) \<le> p * ln p + epsilon" by linarith
qed

lemma guard_row:
  fixes ps :: "real list"
  assumes pos: "\<And>p. p \<in> set ps \<Longrightarrow> 0 < p"
  shows "sum_list (map (\<lambda>p. p * ln p) ps) \<le> sum_list (map (\<lambda>p. p * ln (p + epsilon)) ps)"
    and "sum_list (map (\<lambda>p. p * ln (p + epsilon)) ps) \<le>
         sum_list (map (\<lambda>p. p * ln p) ps) + real (length ps) * epsilon"
proof -
  show "sum_list (map (\<lambda>p. p * ln p) ps) \<le> sum_list (map (\<lambda>p. p * ln (p + epsilon)) ps)"
    using guard_term(1) [OF pos] by (intro sum_list_mono) simp
  have "sum_list (map (\<lambda>p. p * ln (p + epsilon)) ps) \<le> sum_list (map (\<lambda>p. p * ln p + epsilon) ps)"
    using guard_term(2) [OF pos] by (intro sum_list_mono) simp
  also have "\<dots> = sum_list (map (\<lambda>p. p * ln p) ps) + real (length ps) * epsilon"
    by (simp add: sum_list_addf sum_list_triv)
  finally show "sum_list (map (\<lambda>p. p * ln (p + epsilon)) ps) \<le>
         sum_list (map (\<lambda>p. p * ln p) ps) + real (length ps) * epsilon" .
qed

lemma sum_list_uminus_real:
  fixes f :: "'a \<Rightarrow> real"
  shows "sum_list (map (\<lambda>a. - f a) xs) = - sum_list (map f xs)"
  by (induction xs) simp_all

lemma mean_lower_eq:
  fixes xs :: "real list"
  assumes "xs \<noteq> []" "\<And>x. x \<in> set xs \<Longrightarrow> lo \<le> x"
  shows "sum_list xs / real (length xs) = lo \<longleftrightarrow> (\<forall>x \<in> set xs. x = lo)"
proof
  assume m: "sum_list xs / real (length xs) = lo"
  have n: "0 < real (length xs)" using assms(1) by simp
  from m n have "sum_list xs = real (length xs) * lo" by (simp add: field_simps)
  then have eq: "sum_list (map (\<lambda>x. lo) xs) = sum_list (map (\<lambda>x. x) xs)"
    by (simp add: sum_list_triv)
  show "\<forall>x \<in> set xs. x = lo"
  proof
    fix x assume "x \<in> set xs"
    with assms(2) eq have "lo = x" by (intro sum_list_mono_eq [of xs "\<lambda>x. lo" "\<lambda>x. x" x]) simp_all
    then show "x = lo" by simp
  qed
next
  assume "\<forall>x \<in> set xs. x = lo"
  then have "replicate (length xs) lo = xs" by (intro replicate_length_same) simp
  then have "sum_list xs = sum_list (replicate (length xs) lo)" by simp
  then have "sum_list xs = real (length xs) * lo" by (simp only: sum_list_replicate)
  then show "sum_list xs / real (length xs) = lo" using assms(1) by simp
qed

section \<open>The squared errors of the candidates\<close>

lemma modified_errs_explicit_raw:
  assumes ws: "well_shaped q" and r: "in_range q code" and x: "length x = dim q"
  shows "modified_errs q x code =
    Inr (map (\<lambda>c. map (\<lambda>k. map (\<lambda>i.
            sum_list (map (\<lambda>c'. centers q ! c' ! nat (code ! c') ! i) [0..<num_codebooks q]) - x ! i
              - centers q ! c ! nat (code ! c) ! i + centers q ! c ! k ! i)
          [0..<dim q]) [0..<codebook_size q]) [0..<num_codebooks q])"
proof -
  let ?C = "num_codebooks q" and ?K = "codebook_size q" and ?d = "dim q"
  let ?cur = "map (\<lambda>c. centers q ! c ! nat (code ! c)) [0..<?C]"
  let ?x_err = "map2 (-) (vsum ?d ?cur) x"
  let ?errs = "map2 (\<lambda>cb cc. map (\<lambda>center. map2 (+) (map2 (-) ?x_err cc) center) cb)
                     (centers q) ?cur"
  have len: "length (centers q) = ?C" "length code = ?C"
    using ws r by (simp_all add: well_shaped_def in_range_def)
  have cur_len: "\<And>v. v \<in> set ?cur \<Longrightarrow> length v = ?d"
    using well_shapedD(3) [OF ws] in_rangeD(3) [OF r] by auto
  have me: "modified_errs q x code = Inr ?errs"
    by (simp add: modified_errs_def cur_centers_eq [OF ws r])
  have sum_len: "length (vsum ?d ?cur) = ?d" using cur_len by (rule vsum_length)
  have "?errs = map (\<lambda>c. map (\<lambda>k. map (\<lambda>i.
            sum_list (map (\<lambda>c'. centers q ! c' ! nat (code ! c') ! i) [0..<?C]) - x ! i
              - centers q ! c ! nat (code ! c) ! i + centers q ! c ! k ! i)
          [0..<?d]) [0..<?K]) [0..<?C]"
  proof (rule nth_equalityI)
    show "length ?errs = length (map (\<lambda>c. map (\<lambda>k. map (\<lambda>i.
            sum_list (map (\<lambda>c'. centers q ! c' ! nat (code ! c') ! i) [0..<?C]) - x ! i
              - centers q ! c ! nat (code ! c) ! i + centers q ! c ! k ! i)
          [0..<?d]) [0..<?K]) [0..<?C])" using len by simp
  next
    fix c assume "c < length ?errs"
    then have c: "c < ?C" using len by simp
    have lc: "length (centers q ! c ! nat (code ! c)) = ?d"
      using well_shapedD(3) [OF ws c in_rangeD(3) [OF r c]] .
    show "?errs ! c = map (\<lambda>c. map (\<lambda>k. map (\<lambda>i.
            sum_list (map (\<lambda>c'. centers q ! c' ! nat (code ! c') ! i) [0..<?C]) - x ! i
              - centers q ! c ! nat (code ! c) ! i + centers q ! c ! k ! i)
          [0..<?d]) [0..<?K]) [0..<?C] ! c"
    proof (rule nth_equalityI)
      show "length (?errs ! c) = length (map (\<lambda>c. map (\<lambda>k. map (\<lambda>i.
            sum_list (map (\<lambda>c'. centers q ! c' ! nat (code ! c') ! i) [0..<?C]) - x ! i
              - centers q ! c ! nat (code ! c) ! i + centers q ! c ! k ! i)
          [0..<?d]) [0..<?K]) [0..<?C] ! c)"
        using c len well_shapedD(2) [OF ws c] by simp
    next
      fix k assume "k < length (?errs ! c)"
      then have k: "k < ?K" using c len well_shapedD(2) [OF ws c] by simp
      have lk: "length (centers q ! c ! k) = ?d" using well_shapedD(3) [OF ws c k] .
      have e: "?errs ! c ! k =
          map2 (+) (map2 (-) ?x_err (centers q ! c ! nat (code ! c))) (centers q ! c ! k)"
        using c k len well_shapedD(2) [OF ws c] by simp
      have "map2 (+) (map2 (-) ?x_err (centers q ! c ! nat (code ! c))) (centers q ! c ! k) =
          map (\<lambda>i. sum_list (map (\<lambda>c'. centers q ! c' ! nat (code ! c') ! i) [0..<?C]) - x ! i
              - centers q ! c ! nat (code ! c) ! i + centers q ! c ! k ! i) [0..<?d]"
      proof (rule nth_equalityI)
        show "length (map2 (+) (map2 (-) ?x_err (centers q ! c ! nat (code ! c))) (centers q ! c ! k)) =
          length (map (\<lambda>i. sum_list (map (\<lambda>c'. centers q ! c' ! nat (code ! c') ! i) [0..<?C]) - x ! i
              - centers q ! c ! nat (code ! c) ! i + centers q ! c ! k ! i) [0..<?d])"
          using x sum_len lk lc by simp
      next
        fix i assume "i < length (map2 (+) (map2 (-) ?x_err (centers q ! c ! nat (code ! c))) (centers q ! c ! k))"
        then have i: "i < ?d" using x sum_len lk lc by simp
        have "vsum ?d ?cur ! i = sum_list (map (\<lambda>c'. centers q ! c' ! nat (code ! c') ! i) [0..<?C])"
          using vsum_nth [of ?cur ?d i, OF cur_len i] by (simp add: comp_def)
        then show "map2 (+) (map2 (-) ?x_err (centers q ! c ! nat (code ! c))) (centers q ! c ! k) ! i =
          map (\<lambda>i. sum_list (map (\<lambda>c'. centers q ! c' ! nat (code ! c') ! i) [0..<?C]) - x ! i
              - centers q ! c ! nat (code ! c) ! i + centers q ! c ! k ! i) [0..<?d] ! i"
          using i x sum_len lk lc by simp
      qed
      with e c k show "?errs ! c ! k = map (\<lambda>c. map (\<lambda>k. map (\<lambda>i.
            sum_list (map (\<lambda>c'. centers q ! c' ! nat (code ! c') ! i) [0..<?C]) - x ! i
              - centers q ! c ! nat (code ! c) ! i + centers q ! c ! k ! i)
          [0..<?d]) [0..<?K]) [0..<?C] ! c ! k" by simp
    qed
  qed
  with me show ?thesis by simp
qed

lemma modified_errs_explicit:
  assumes "well_shaped q" "in_range q code" "length x = dim q"
  shows "modified_errs q x code = Inr (modified_errs_closed q x code)"
  unfolding modified_errs_closed_def using assms by (rule modified_errs_explicit_raw)

lemma val_sumsq_nonneg: "0 \<le> val (sumsq v)"
  unfolding val_sumsq by (rule sum_list_nonneg) auto

lemma centers_leaves:
  assumes "well_shaped q" "parameters_are_leaves q" "c < num_codebooks q" "k < codebook_size q"
    "i < dim q"
  shows "leaves (centers q ! c ! k ! i) = {Centers}"
  using assms by (simp add: well_shaped_def parameters_are_leaves_def list_all_length)

lemma modified_errs_closed_leaves:
  assumes ws: "well_shaped q" and r: "in_range q code" and x: "length x = dim q"
    and pal: "parameters_are_leaves q" and c: "c < num_codebooks q" and k: "k < codebook_size q"
  shows "leaves (sumsq (modified_errs_closed q x code ! c ! k)) = {Centers} \<union> \<Union> (leaves ` set x)"
proof -
  let ?C = "num_codebooks q" and ?K = "codebook_size q" and ?d = "dim q"
  let ?el = "\<lambda>i. sum_list (map (\<lambda>c'. centers q ! c' ! nat (code ! c') ! i) [0..<?C]) - x ! i
              - centers q ! c ! nat (code ! c) ! i + centers q ! c ! k ! i"
  have d: "0 < ?d" using ws by (simp add: well_shaped_def)
  have el: "leaves (?el i) = {Centers} \<union> leaves (x ! i)" if i: "i < ?d" for i
  proof -
    have cl: "leaves (centers q ! c' ! nat (code ! c') ! i) = {Centers}" if "c' < ?C" for c'
      using centers_leaves [OF ws pal that in_rangeD(3) [OF r that] i] .
    have "leaves (sum_list (map (\<lambda>c'. centers q ! c' ! nat (code ! c') ! i) [0..<?C])) =
        (\<Union>c' \<in> {0..<?C}. leaves (centers q ! c' ! nat (code ! c') ! i))"
      by (simp add: image_image)
    also have "\<dots> = (\<Union>c' \<in> {0..<?C}. {Centers})" using cl by simp
    also have "\<dots> = {Centers}" using c by auto
    finally have s: "leaves (sum_list (map (\<lambda>c'. centers q ! c' ! nat (code ! c') ! i) [0..<?C])) =
        {Centers}" .
    have "leaves (?el i) = {Centers} \<union> leaves (x ! i) \<union> {Centers} \<union> {Centers}"
      by (simp only: leaves_simps s cl [OF c] centers_leaves [OF ws pal c k i])
    then show ?thesis by blast
  qed
  have "modified_errs_closed q x code ! c ! k = map ?el [0..<?d]"
    using c k by (simp add: modified_errs_closed_def)
  then have "leaves (sumsq (modified_errs_closed q x code ! c ! k)) = (\<Union>i \<in> {0..<?d}. leaves (?el i))"
    by (simp add: sumsq_def image_image)
  also have "\<dots> = (\<Union>i \<in> {0..<?d}. {Centers} \<union> leaves (x ! i))"
    using el by simp
  also have "\<dots> = {Centers} \<union> (\<Union>i \<in> {0..<?d}. leaves (x ! i))"
    using d by auto
  also have "(\<Union>i \<in> {0..<?d}. leaves (x ! i)) = \<Union> (leaves ` set x)"
  proof -
    have "set x = nth x ` {0..<?d}" using nth_image [of "length x" x] x by simp
    then show ?thesis by (simp only: image_image)
  qed
  finally show ?thesis .
qed

lemma modified_sumsq_errs_explicit:
  assumes ws: "well_shaped q" and vb: "valid_batch q x indexes"
  shows "modified_sumsq_errs q x indexes = Inr (modified_sumsq_errs_closed q x indexes)"
proof -
  let ?f = "\<lambda>xr ir. case modified_errs q xr ir of Inl e \<Rightarrow> Inl e
                               | Inr errs \<Rightarrow> Inr (map (map sumsq) errs)"
  have len: "length x = length indexes" using vb by (simp add: valid_batch_def)
  have "map2 ?f x indexes = map (\<lambda>b. ?f (x ! b) (indexes ! b)) [0..<length indexes]"
    using len by (intro nth_equalityI) simp_all
  moreover have "sequence (map (\<lambda>b. ?f (x ! b) (indexes ! b)) [0..<length indexes]) =
      Inr (map (\<lambda>b. map (map sumsq) (modified_errs_closed q (x ! b) (indexes ! b))) [0..<length indexes])"
  proof (rule sequence_map_Inr)
    fix b assume "b \<in> set [0..<length indexes]"
    then have b: "b < length indexes" by simp
    have r: "in_range q (indexes ! b)" and xl: "length (x ! b) = dim q"
      using vb b by (simp_all add: valid_batch_def list_all_length)
    show "?f (x ! b) (indexes ! b) = Inr (map (map sumsq) (modified_errs_closed q (x ! b) (indexes ! b)))"
      by (simp add: modified_errs_explicit [OF ws r xl])
  qed
  ultimately show ?thesis
    by (simp add: modified_sumsq_errs_def modified_sumsq_errs_closed_def)
qed

lemma msq_shape:
  assumes "b < length indexes"
  shows "length (modified_sumsq_errs_closed q x indexes) = length indexes"
    "length (modified_sumsq_errs_closed q x indexes ! b) = num_codebooks q"
    "c < num_codebooks q \<Longrightarrow> length (modified_sumsq_errs_closed q x indexes ! b ! c) = codebook_size q"
  using assms by (simp_all add: modified_sumsq_errs_closed_def modified_errs_closed_def)

lemma msq_nonneg:
  assumes "b < length indexes" "c < num_codebooks q" "k < codebook_size q"
  shows "0 \<le> val (modified_sumsq_errs_closed q x indexes ! b ! c ! k)"
proof -
  have "modified_sumsq_errs_closed q x indexes ! b ! c ! k =
      sumsq (modified_errs_closed q (x ! b) (indexes ! b) ! c ! k)"
    using assms by (simp add: modified_sumsq_errs_closed_def modified_errs_closed_def)
  then show ?thesis by (simp only: val_sumsq_nonneg)
qed

lemma msq_leaves:
  assumes ws: "well_shaped q" and vb: "valid_batch q x indexes" and pal: "parameters_are_leaves q"
    and b: "b < length indexes" and c: "c < num_codebooks q" and k: "k < codebook_size q"
  shows "leaves (modified_sumsq_errs_closed q x indexes ! b ! c ! k) =
    {Centers} \<union> \<Union> (leaves ` set (x ! b))"
proof -
  have r: "in_range q (indexes ! b)" and xl: "length (x ! b) = dim q"
    using vb b by (simp_all add: valid_batch_def list_all_length)
  have "modified_sumsq_errs_closed q x indexes ! b ! c ! k =
      sumsq (modified_errs_closed q (x ! b) (indexes ! b) ! c ! k)"
    using b c k by (simp add: modified_sumsq_errs_closed_def modified_errs_closed_def)
  then show ?thesis
    by (simp only: modified_errs_closed_leaves [OF ws r xl pal c k])
qed

section \<open>The selection distributions and the frame entropy\<close>

lemma map2_map_same: "map2 f (map g xs) (map h xs) = map (\<lambda>x. f (g x) (h x)) xs"
  by (induction xs) simp_all

lemma map2_map_left: "map2 f (map g xs) xs = map (\<lambda>x. f (g x) x) xs"
  by (induction xs) simp_all

lemma softmax_val: "map val (softmax z) = softmax_real (map val z)"
  by (simp add: softmax_def softmax_real_def comp_def)

lemma log_softmax_val:
  "map val (log_softmax z) = map (\<lambda>a. a - ln (sum_list (map exp (map val z)))) (map val z)"
  by (simp add: log_softmax_def comp_def)

lemma softmax_length [simp]: "length (softmax z) = length z"
  by (simp add: softmax_def)

lemma log_softmax_length [simp]: "length (log_softmax z) = length z"
  by (simp add: log_softmax_def)

lemma categorical_probs_val:
  "map val (categorical_probs (log_softmax z)) = softmax_real (map val z)"
proof -
  have "map val (categorical_probs (log_softmax z)) =
      softmax_real (map val (log_softmax (log_softmax z)))"
    by (simp only: categorical_probs_def softmax_val)
  also have "\<dots> = softmax_real (map val (log_softmax z))"
    by (simp only: log_softmax_val [of "log_softmax z"] softmax_real_shift)
  also have "\<dots> = softmax_real (map val z)"
    by (simp only: log_softmax_val [of z] softmax_real_shift)
  finally show ?thesis .
qed

lemma scaled_detached_val:
  "map (val \<circ> (\<lambda>e. detach e * - exp_scalar (const 10 * frame_entropy_scale q))) s = logits_real q s"
  by (simp add: logits_real_def comp_def)

lemma scaled_val:
  "map (val \<circ> (\<lambda>e. e * - exp_scalar (const 10 * detach (frame_entropy_scale q)))) s = logits_real q s"
  by (simp add: logits_real_def comp_def)

lemma codebook_probs_val:
  assumes "b < length m" "c < length (m ! b)"
  shows "map val (codebook_probs q m ! b ! c) = softmax_real (logits_real q (m ! b ! c))"
  using assms
  by (simp add: codebook_probs_def scaled_neg_sumsq_errs_def softmax_val scaled_val)

lemma codebook_probs_detached_val:
  assumes "b < length m" "c < length (m ! b)"
  shows "map val (codebook_probs_detached q m ! b ! c) = softmax_real (logits_real q (m ! b ! c))"
  using assms
  by (simp add: codebook_probs_detached_def scaled_neg_sumsq_errs_detached_def softmax_val
      scaled_detached_val)

lemma sampling_probs_val:
  assumes "b < length m" "c < length (m ! b)"
  shows "map val (categorical_probs (codebook_logprobs_detached q m ! b ! c)) =
     softmax_real (logits_real q (m ! b ! c))"
  using assms
  by (simp add: codebook_logprobs_detached_def scaled_neg_sumsq_errs_detached_def
      categorical_probs_val scaled_detached_val)

lemma refine_indexes_stochastic_eq:
  assumes "well_shaped q" "valid_batch q x indexes"
  shows "refine_indexes_stochastic q u x indexes =
     Inr (sample_indexes u (codebook_logprobs_detached q (modified_sumsq_errs_closed q x indexes)),
          entropy_loss q (modified_sumsq_errs_closed q x indexes),
          avg_frame_entropy q (modified_sumsq_errs_closed q x indexes),
          reconstruction_loss q (modified_sumsq_errs_closed q x indexes) x)"
  by (simp add: refine_indexes_stochastic_def modified_sumsq_errs_explicit [OF assms])

lemma map_val_map2_times:
  "map val (map2 (*) xs ys) = map2 (*) (map val xs) (map val ys)"
  by (induction xs ys rule: list_induct2') simp_all

lemma frame_term_val:
  assumes "s \<noteq> []"
  shows "val (sum_list (map2 (*) (log_softmax s) (softmax s))) =
     sum_list (map (\<lambda>p. ln p * p) (softmax_real (map val s)))"
proof -
  let ?z = "map val s"
  let ?L = "ln (sum_list (map exp ?z))"
  have "map2 (*) (map (\<lambda>a. a - ?L) ?z) (softmax_real ?z) = map (\<lambda>p. ln p * p) (softmax_real ?z)"
  proof (rule nth_equalityI)
    show "length (map2 (*) (map (\<lambda>a. a - ?L) ?z) (softmax_real ?z)) =
        length (map (\<lambda>p. ln p * p) (softmax_real ?z))" by simp
  next
    fix k assume "k < length (map2 (*) (map (\<lambda>a. a - ?L) ?z) (softmax_real ?z))"
    then have k: "k < length ?z" by simp
    from ln_softmax_real [OF k] k
    show "map2 (*) (map (\<lambda>a. a - ?L) ?z) (softmax_real ?z) ! k =
        map (\<lambda>p. ln p * p) (softmax_real ?z) ! k" by simp
  qed
  then show ?thesis
    by (simp only: val_sum_list map_val_map2_times log_softmax_val softmax_val)
qed

lemma frame_term_bounds:
  assumes "s \<noteq> []"
  shows "- ln (real (length s)) \<le> val (sum_list (map2 (*) (log_softmax s) (softmax s)))"
    and "val (sum_list (map2 (*) (log_softmax s) (softmax s))) \<le> 0"
proof -
  let ?ps = "softmax_real (map val s)"
  have pos: "\<And>p. p \<in> set ?ps \<Longrightarrow> 0 < p" by (rule softmax_real_pos)
  have one: "sum_list ?ps = 1" using assms by (intro softmax_real_sum) simp
  have "- ln (real (length ?ps)) \<le> sum_list (map (\<lambda>p. ln p * p) ?ps)"
    by (rule entropy_le_ln [OF pos one])
  then show "- ln (real (length s)) \<le> val (sum_list (map2 (*) (log_softmax s) (softmax s)))"
    by (simp only: frame_term_val [OF assms] softmax_real_length length_map)
  have "sum_list (map (\<lambda>p. ln p * p) ?ps) \<le> 0"
    by (rule entropy_nonneg [OF pos one])
  then show "val (sum_list (map2 (*) (log_softmax s) (softmax s))) \<le> 0"
    by (simp only: frame_term_val [OF assms])
qed

lemma avg_frame_entropy_eq:
  "avg_frame_entropy q m =
     - mean (map (\<lambda>s. sum_list (map2 (*) (log_softmax s) (softmax s)))
               (concat (scaled_neg_sumsq_errs_detached q m)))"
proof -
  have "map2 (map2 (\<lambda>lp p. sum_list (map2 (*) lp p)))
          (map (map log_softmax) S) (map (map softmax) S) =
        map (map (\<lambda>s. sum_list (map2 (*) (log_softmax s) (softmax s)))) S" for S
    by (simp only: map2_map_same)
  then show ?thesis
    by (simp only: avg_frame_entropy_def codebook_logprobs_detached_def
        codebook_probs_detached_def map_concat)
qed

lemma msq_rows:
  "r \<in> set (concat (modified_sumsq_errs_closed q x indexes)) \<Longrightarrow> length r = codebook_size q"
  by (auto simp: modified_sumsq_errs_closed_def modified_errs_closed_def)

lemma msq_concat_nonempty:
  assumes "indexes \<noteq> []" "0 < num_codebooks q"
  shows "concat (modified_sumsq_errs_closed q x indexes) \<noteq> []"
proof -
  have "0 < length indexes" using assms(1) by simp
  then have "modified_sumsq_errs_closed q x indexes ! 0 \<in> set (modified_sumsq_errs_closed q x indexes)"
    by (intro nth_mem) (simp add: modified_sumsq_errs_closed_def)
  moreover have "modified_sumsq_errs_closed q x indexes ! 0 \<noteq> []"
    using msq_shape(2) [of 0 indexes q x] assms by auto
  ultimately show ?thesis by auto
qed

lemma codebook_size_pos:
  assumes "valid_batch q x indexes" "indexes \<noteq> []" "0 < num_codebooks q"
  shows "0 < codebook_size q"
proof -
  have "in_range q (indexes ! 0)" using assms(1,2) by (simp add: valid_batch_def list_all_length)
  from in_rangeD(3) [OF this assms(3)] show ?thesis by simp
qed

lemma mean_val: "val (mean xs) = sum_list (map val xs) / real (length xs)"
  by (simp add: mean_def)

lemma avg_frame_entropy_bounds:
  assumes ne: "indexes \<noteq> []" and C: "0 < num_codebooks q" and K: "0 < codebook_size q"
  shows "0 \<le> val (avg_frame_entropy q (modified_sumsq_errs_closed q x indexes))"
    and "val (avg_frame_entropy q (modified_sumsq_errs_closed q x indexes)) \<le> ln (real (codebook_size q))"
proof -
  let ?m = "modified_sumsq_errs_closed q x indexes"
  let ?g = "\<lambda>e. detach e * - exp_scalar (const 10 * frame_entropy_scale q)"
  let ?F = "\<lambda>s. sum_list (map2 (*) (log_softmax s) (softmax s))"
  let ?S = "concat (scaled_neg_sumsq_errs_detached q ?m)"
  let ?xs = "map val (map ?F ?S)"
  have S: "?S = map (map ?g) (concat ?m)"
    by (simp only: scaled_neg_sumsq_errs_detached_def map_concat)
  have len: "length s = codebook_size q" if "s \<in> set ?S" for s
  proof -
    from that obtain r where "r \<in> set (concat ?m)" "s = map ?g r" unfolding S by auto
    with msq_rows [of r q x indexes] show ?thesis by simp
  qed
  have ne': "?xs \<noteq> []" using msq_concat_nonempty [OF ne C, of x] unfolding S by simp
  have lo: "- ln (real (codebook_size q)) \<le> t" and hi: "t \<le> 0" if "t \<in> set ?xs" for t
  proof -
    from that obtain s where s: "s \<in> set ?S" "t = val (?F s)" by auto
    then have "s \<noteq> []" using len [OF s(1)] K by auto
    from frame_term_bounds [OF this] s len [OF s(1)]
    show "- ln (real (codebook_size q)) \<le> t" and "t \<le> 0" by simp_all
  qed
  have v: "val (avg_frame_entropy q ?m) = - (sum_list ?xs / real (length ?xs))"
    by (simp only: avg_frame_entropy_eq val_simps mean_val length_map)
  from mean_bounds [OF ne' lo hi] show "0 \<le> val (avg_frame_entropy q ?m)"
    and "val (avg_frame_entropy q ?m) \<le> ln (real (codebook_size q))"
    unfolding v by simp_all
qed

section \<open>forward, and the claims on the selection distributions\<close>

lemma categorical_sample_less: "ps \<noteq> [] \<Longrightarrow> categorical_sample ps u < length ps"
  by (induction ps u rule: categorical_sample.induct) simp_all

lemma sample_indexes_valid:
  assumes vb: "valid_batch q x indexes" and K: "0 < codebook_size q"
  shows "valid_batch q x
     (sample_indexes u (codebook_logprobs_detached q (modified_sumsq_errs_closed q x indexes)))"
proof -
  let ?m = "modified_sumsq_errs_closed q x indexes"
  let ?lpd = "codebook_logprobs_detached q ?m"
  let ?new = "sample_indexes u ?lpd"
  have l0: "length ?lpd = length indexes"
    by (simp add: codebook_logprobs_detached_def scaled_neg_sumsq_errs_detached_def
        modified_sumsq_errs_closed_def)
  have l1: "length (?lpd ! b) = num_codebooks q" if "b < length indexes" for b
    using that
    by (simp add: codebook_logprobs_detached_def scaled_neg_sumsq_errs_detached_def
        modified_sumsq_errs_closed_def modified_errs_closed_def)
  have l2: "length (?lpd ! b ! c) = codebook_size q"
    if "b < length indexes" "c < num_codebooks q" for b c
    using that
    by (simp add: codebook_logprobs_detached_def scaled_neg_sumsq_errs_detached_def
        modified_sumsq_errs_closed_def modified_errs_closed_def)
  have len: "length ?new = length indexes" by (simp add: sample_indexes_def l0)
  have "in_range q (?new ! b)" if b: "b < length indexes" for b
  proof -
    have row: "?new ! b = map (\<lambda>c. int (categorical_sample
                (map val (categorical_probs (?lpd ! b ! c))) (u b c))) [0..<num_codebooks q]"
      using b by (simp add: sample_indexes_def l0 l1)
    have "categorical_sample (map val (categorical_probs (?lpd ! b ! c))) (u b c) < codebook_size q"
      if c: "c < num_codebooks q" for c
    proof -
      have "length (map val (categorical_probs (?lpd ! b ! c))) = codebook_size q"
        using l2 [OF b c] by (simp add: categorical_probs_def)
      moreover from this K have "map val (categorical_probs (?lpd ! b ! c)) \<noteq> []" by auto
      ultimately show ?thesis using categorical_sample_less by metis
    qed
    then show ?thesis unfolding row by (simp add: in_range_def list_all_length)
  qed
  then show ?thesis using vb len by (simp add: valid_batch_def list_all_length)
qed

lemma initial_indexes_valid:
  assumes K: "2 \<le> codebook_size q" and x: "list_all (\<lambda>r. length r = dim q) x"
  shows "\<exists>idx. initial_indexes q (length x) raw = Inr idx \<and> valid_batch q x idx"
proof -
  let ?idx = "map (\<lambda>b. map (\<lambda>c. int (raw b c) mod (int (codebook_size q) - 1))
      [0..<num_codebooks q]) [0..<length x]"
  have h: "0 < int (codebook_size q) - 1" using K by simp
  then have "initial_indexes q (length x) raw = Inr ?idx"
    by (simp add: initial_indexes_def randint_def)
  moreover have "in_range q (?idx ! b)" if "b < length x" for b
  proof -
    have "0 \<le> int (raw b c) mod (int (codebook_size q) - 1)"
      "int (raw b c) mod (int (codebook_size q) - 1) < int (codebook_size q)" for c
    proof -
      show "0 \<le> int (raw b c) mod (int (codebook_size q) - 1)" using h by simp
      have "int (raw b c) mod (int (codebook_size q) - 1) < int (codebook_size q) - 1"
        using h by (rule pos_mod_bound)
      then show "int (raw b c) mod (int (codebook_size q) - 1) < int (codebook_size q)"
        by linarith
    qed
    then show ?thesis using that by (simp add: in_range_def list_all_length)
  qed
  then have "valid_batch q x ?idx" using x by (simp add: valid_batch_def list_all_length)
  ultimately show ?thesis by blast
qed

lemma forward_last_iteration:
  assumes ws: "well_shaped q" and K: "2 \<le> codebook_size q"
    and x: "list_all (\<lambda>r. length r = dim q) x" and n: "0 < num_iters"
  shows "\<exists>idx' idx losses. valid_batch q x idx' \<and>
     refine_indexes_stochastic q (u (num_iters - 1)) x idx' = Inr (idx, losses) \<and>
     forward q raw u x num_iters = Inr (idx, losses)"
proof -
  let ?body = "\<lambda>i st. case refine_indexes_stochastic q (u i) x (fst st) of
                              Inl e \<Rightarrow> Inl e
                            | Inr (idx, losses) \<Rightarrow> Inr (idx, Some losses)"
  let ?I = "\<lambda>i st. valid_batch q x (fst st) \<and>
      (0 < i \<longrightarrow> (\<exists>idx' losses. valid_batch q x idx' \<and> snd st = Some losses \<and>
         refine_indexes_stochastic q (u (i - 1)) x idx' = Inr (fst st, losses)))"
  from initial_indexes_valid [OF K x] obtain idx0 where
    i0: "initial_indexes q (length x) raw = Inr idx0" "valid_batch q x idx0" by blast
  have K0: "0 < codebook_size q" using K by simp
  have step: "\<exists>s'. ?body i s = Inr s' \<and> ?I (Suc i) s'" if "?I i s" for i s
  proof -
    from that have vb: "valid_batch q x (fst s)" by simp
    let ?m = "modified_sumsq_errs_closed q x (fst s)"
    let ?new = "sample_indexes (u i) (codebook_logprobs_detached q ?m)"
    let ?losses = "(entropy_loss q ?m, avg_frame_entropy q ?m, reconstruction_loss q ?m x)"
    have r: "refine_indexes_stochastic q (u i) x (fst s) = Inr (?new, ?losses)"
      using refine_indexes_stochastic_eq [OF ws vb] .
    have v: "valid_batch q x ?new" using sample_indexes_valid [OF vb K0] .
    have "?body i s = Inr (?new, Some ?losses)" by (simp add: r)
    moreover have "?I (Suc i) (?new, Some ?losses)" using v vb r by auto
    ultimately show ?thesis by blast
  qed
  have "\<exists>s'. for_range [0..<num_iters] ?body (idx0, None) = Inr s' \<and> ?I num_iters s'"
    by (rule for_range_invariant [where I = ?I]) (use i0 step in auto)
  then obtain s' where s': "for_range [0..<num_iters] ?body (idx0, None) = Inr s'" "?I num_iters s'"
    by blast
  from s'(2) n obtain idx' losses where
    l: "valid_batch q x idx'" "snd s' = Some losses"
    "refine_indexes_stochastic q (u (num_iters - 1)) x idx' = Inr (fst s', losses)" by blast
  obtain idx where sp: "s' = (idx, Some losses)" using l(2) by (cases s') simp
  have f: "forward q raw u x num_iters = Inr (idx, losses)"
    using x by (simp add: forward_def i0(1) s'(1) sp)
  have "refine_indexes_stochastic q (u (num_iters - 1)) x idx' = Inr (idx, losses)"
    using l(3) sp by simp
  with l(1) f show ?thesis by blast
qed

lemma valid_batch_nonempty:
  "valid_batch q x indexes \<Longrightarrow> x \<noteq> [] \<Longrightarrow> indexes \<noteq> []"
  by (auto simp: valid_batch_def)

text \<open>
  Claim C8. For every well-shaped quantizer, every non-empty batch \<open>x\<close> of rows of length
  \<open>dim\<close>, every code tuple per row with components in \<open>[0, codebook_size)\<close>, every value of
  \<open>frame_entropy_scale\<close> and every outcome of the sampling, \<^verbatim>\<open>refine_indexes_stochastic\<close>
  returns, and the frame entropy it returns lies between \<open>0\<close> and \<open>ln codebook_size\<close>. So does
  the frame entropy that \<^verbatim>\<open>forward\<close> returns after at least one iteration (with
  \<open>codebook_size \<ge> 2\<close>, which \<^verbatim>\<open>torch.randint\<close> needs).
\<close>

theorem frame_entropy_in_range:
  assumes "well_shaped q" and "valid_batch q x indexes" and "x \<noteq> []" and "0 < num_codebooks q"
  shows "(\<exists>new el fe rl. refine_indexes_stochastic q u x indexes = Inr (new, el, fe, rl) \<and>
            0 \<le> val fe \<and> val fe \<le> ln (real (codebook_size q))) \<and>
         (2 \<le> codebook_size q \<and> 0 < num_iters \<longrightarrow>
            (\<exists>idx el fe rl. forward q raw us x num_iters = Inr (idx, el, fe, rl) \<and>
               0 \<le> val fe \<and> val fe \<le> ln (real (codebook_size q))))"
proof
  have ne: "indexes \<noteq> []" using assms(2,3) by (rule valid_batch_nonempty)
  have K: "0 < codebook_size q" using assms(2) ne assms(4) by (rule codebook_size_pos)
  show "\<exists>new el fe rl. refine_indexes_stochastic q u x indexes = Inr (new, el, fe, rl) \<and>
            0 \<le> val fe \<and> val fe \<le> ln (real (codebook_size q))"
    using refine_indexes_stochastic_eq [OF assms(1,2), of u]
      avg_frame_entropy_bounds [OF ne assms(4) K, of x] by blast
  show "2 \<le> codebook_size q \<and> 0 < num_iters \<longrightarrow>
            (\<exists>idx el fe rl. forward q raw us x num_iters = Inr (idx, el, fe, rl) \<and>
               0 \<le> val fe \<and> val fe \<le> ln (real (codebook_size q)))"
  proof
    assume h: "2 \<le> codebook_size q \<and> 0 < num_iters"
    have xl: "list_all (\<lambda>r. length r = dim q) x" using assms(2) by (simp add: valid_batch_def)
    from forward_last_iteration [OF assms(1) _ xl, of num_iters us raw] h
    obtain idx' idx losses where
      f: "valid_batch q x idx'"
      "refine_indexes_stochastic q (us (num_iters - 1)) x idx' = Inr (idx, losses)"
      "forward q raw us x num_iters = Inr (idx, losses)" by blast
    have ne': "idx' \<noteq> []" using f(1) assms(3) by (rule valid_batch_nonempty)
    from f(2) refine_indexes_stochastic_eq [OF assms(1) f(1), of "us (num_iters - 1)"]
    have "losses = (entropy_loss q (modified_sumsq_errs_closed q x idx'),
        avg_frame_entropy q (modified_sumsq_errs_closed q x idx'),
        reconstruction_loss q (modified_sumsq_errs_closed q x idx') x)" by simp
    with f(3) avg_frame_entropy_bounds [OF ne' assms(4) K, of x]
    show "\<exists>idx el fe rl. forward q raw us x num_iters = Inr (idx, el, fe, rl) \<and>
               0 \<le> val fe \<and> val fe \<le> ln (real (codebook_size q))" by blast
  qed
qed

theorem frame_entropy_in_range_witness:
  "well_shaped example_overshoot \<and> valid_batch example_overshoot [[const 3]] [[0, 0]] \<and>
   (\<exists>new el fe rl.
      refine_indexes_stochastic example_overshoot (\<lambda>b c. 0) [[const 3]] [[0, 0]] = Inr (new, el, fe, rl) \<and>
      0 \<le> val fe \<and> val fe \<le> ln 2) \<and>
   (\<exists>idx el fe rl.
      forward example_overshoot (\<lambda>b c. 0) (\<lambda>i b c. 0) [[const 3]] 1 = Inr (idx, el, fe, rl) \<and>
      0 \<le> val fe \<and> val fe \<le> ln 2)"
proof -
  have ws: "well_shaped example_overshoot"
    by (simp add: example_overshoot_def well_shaped_def)
  have vb: "valid_batch example_overshoot [[const 3]] [[0, 0]]"
    by (simp add: example_overshoot_def valid_batch_def in_range_def)
  have ne: "[[const 3]] \<noteq> []" by simp
  have C: "0 < num_codebooks example_overshoot" by (simp add: example_overshoot_def)
  have K: "2 \<le> codebook_size example_overshoot \<and> 0 < (1 :: nat)"
    by (simp add: example_overshoot_def)
  have k2: "real (codebook_size example_overshoot) = 2" by (simp add: example_overshoot_def)
  from frame_entropy_in_range [OF ws vb ne C, of "\<lambda>b c. 0" 1 "\<lambda>b c. 0" "\<lambda>i b c. 0"] K ws vb
  show ?thesis unfolding k2 by blast
qed

lemma msq_is_candidate_error:
  assumes ws: "well_shaped q" and vb: "valid_batch q x indexes"
    and b: "b < length indexes" and c: "c < num_codebooks q" and k: "k < codebook_size q"
  shows "reconstruction_error q (x ! b) ((indexes ! b)[c := int k]) =
     Inr (val (modified_sumsq_errs_closed q x indexes ! b ! c ! k))"
proof -
  have r: "in_range q (indexes ! b)" and xl: "length (x ! b) = dim q"
    using vb b by (simp_all add: valid_batch_def list_all_length)
  from modified_errs_eq [OF ws r xl] obtain errs where
    e: "modified_errs q (x ! b) (indexes ! b) = Inr errs"
    and p: "\<forall>c < num_codebooks q. length (errs ! c) = codebook_size q \<and>
       (\<forall>k < codebook_size q.
          reconstruction_error q (x ! b) ((indexes ! b)[c := int k]) = Inr (val (sumsq (errs ! c ! k))))"
    by blast
  from e modified_errs_explicit [OF ws r xl]
  have errs: "errs = modified_errs_closed q (x ! b) (indexes ! b)" by simp
  have "modified_sumsq_errs_closed q x indexes ! b ! c ! k =
      sumsq (modified_errs_closed q (x ! b) (indexes ! b) ! c ! k)"
    using b c k by (simp add: modified_sumsq_errs_closed_def modified_errs_closed_def)
  with p c k errs show ?thesis by simp
qed

text \<open>
  Claim C10. In \<^verbatim>\<open>refine_indexes_stochastic\<close>, for every frame and codebook, the distribution
  of \<^verbatim>\<open>Categorical(logits=codebook_logprobs_detached)\<close> from which the new index is sampled,
  \<open>codebook_probs_detached\<close> (used for the frame entropy) and \<open>codebook_probs\<close> (used for the
  reconstruction and entropy losses) have the same values: the softmax over the candidates
  of minus the squared candidate error times \<open>exp (10 * frame_entropy_scale)\<close>, where the
  squared candidate error \<open>m[b][c][k]\<close> is the squared reconstruction error of the code tuple
  of frame \<open>b\<close> with component \<open>c\<close> replaced by \<open>k\<close>. They differ in their autograd graph
  only.
\<close>

theorem sampling_and_loss_distributions_agree:
  assumes "well_shaped q" and "valid_batch q x indexes"
  shows "\<exists>m. modified_sumsq_errs q x indexes = Inr m \<and>
     refine_indexes_stochastic q u x indexes =
       Inr (sample_indexes u (codebook_logprobs_detached q m),
            entropy_loss q m, avg_frame_entropy q m, reconstruction_loss q m x) \<and>
     (\<forall>b < length indexes. \<forall>c < num_codebooks q.
        (\<forall>k < codebook_size q.
           reconstruction_error q (x ! b) ((indexes ! b)[c := int k]) = Inr (val (m ! b ! c ! k))) \<and>
        map val (categorical_probs (codebook_logprobs_detached q m ! b ! c)) =
          softmax_real (map (\<lambda>e. - val e * exp (10 * val (frame_entropy_scale q))) (m ! b ! c)) \<and>
        map val (codebook_probs_detached q m ! b ! c) =
          softmax_real (map (\<lambda>e. - val e * exp (10 * val (frame_entropy_scale q))) (m ! b ! c)) \<and>
        map val (codebook_probs q m ! b ! c) =
          softmax_real (map (\<lambda>e. - val e * exp (10 * val (frame_entropy_scale q))) (m ! b ! c)))"
proof -
  let ?m = "modified_sumsq_errs_closed q x indexes"
  have "b < length ?m \<and> c < length (?m ! b)" if "b < length indexes" "c < num_codebooks q" for b c
    using msq_shape(1,2) [OF that(1), of q x] that by simp
  then have "\<forall>b < length indexes. \<forall>c < num_codebooks q.
        (\<forall>k < codebook_size q.
           reconstruction_error q (x ! b) ((indexes ! b)[c := int k]) = Inr (val (?m ! b ! c ! k))) \<and>
        map val (categorical_probs (codebook_logprobs_detached q ?m ! b ! c)) =
          softmax_real (logits_real q (?m ! b ! c)) \<and>
        map val (codebook_probs_detached q ?m ! b ! c) =
          softmax_real (logits_real q (?m ! b ! c)) \<and>
        map val (codebook_probs q ?m ! b ! c) =
          softmax_real (logits_real q (?m ! b ! c))"
    by (simp add: sampling_probs_val codebook_probs_detached_val codebook_probs_val
        msq_is_candidate_error [OF assms])
  then show ?thesis
    unfolding logits_real_def
    using modified_sumsq_errs_explicit [OF assms] refine_indexes_stochastic_eq [OF assms, of u]
    by (intro exI [of _ ?m]) simp
qed

theorem sampling_and_loss_distributions_agree_witness:
  "well_shaped example_overshoot \<and> valid_batch example_overshoot [[const 3]] [[0, 0]] \<and>
   (\<exists>m. modified_sumsq_errs example_overshoot [[const 3]] [[0, 0]] = Inr m \<and>
      map val (m ! 0 ! 1) = [9, 1] \<and>
      map val (categorical_probs (codebook_logprobs_detached example_overshoot m ! 0 ! 1)) =
        map val (codebook_probs example_overshoot m ! 0 ! 1) \<and>
      map val (codebook_probs_detached example_overshoot m ! 0 ! 1) =
        map val (codebook_probs example_overshoot m ! 0 ! 1))"
proof -
  have ws: "well_shaped example_overshoot"
    by (simp add: example_overshoot_def well_shaped_def)
  have vb: "valid_batch example_overshoot [[const 3]] [[0, 0]]"
    by (simp add: example_overshoot_def valid_batch_def in_range_def)
  from sampling_and_loss_distributions_agree [OF ws vb, of "\<lambda>b c. 0"] obtain m where
    m: "modified_sumsq_errs example_overshoot [[const 3]] [[0, 0]] = Inr m"
    and d: "\<forall>b < length [[0, 0 :: int]]. \<forall>c < num_codebooks example_overshoot.
        (\<forall>k < codebook_size example_overshoot.
           reconstruction_error example_overshoot ([[const 3]] ! b) (([[0, 0]] ! b)[c := int k]) =
             Inr (val (m ! b ! c ! k))) \<and>
        map val (categorical_probs (codebook_logprobs_detached example_overshoot m ! b ! c)) =
          softmax_real (map (\<lambda>e. - val e * exp (10 * val (frame_entropy_scale example_overshoot))) (m ! b ! c)) \<and>
        map val (codebook_probs_detached example_overshoot m ! b ! c) =
          softmax_real (map (\<lambda>e. - val e * exp (10 * val (frame_entropy_scale example_overshoot))) (m ! b ! c)) \<and>
        map val (codebook_probs example_overshoot m ! b ! c) =
          softmax_real (map (\<lambda>e. - val e * exp (10 * val (frame_entropy_scale example_overshoot))) (m ! b ! c))"
    by blast
  have b0: "0 < length [[0, 0 :: int]]" and c1: "1 < num_codebooks example_overshoot"
    by (simp_all add: example_overshoot_def)
  note dd = d [rule_format, OF b0 c1]
  have p1: "map val (categorical_probs (codebook_logprobs_detached example_overshoot m ! 0 ! 1)) =
        map val (codebook_probs example_overshoot m ! 0 ! 1)"
    using dd by (simp only:)
  have p2: "map val (codebook_probs_detached example_overshoot m ! 0 ! 1) =
        map val (codebook_probs example_overshoot m ! 0 ! 1)"
    using dd by (simp only:)
  have "m = modified_sumsq_errs_closed example_overshoot [[const 3]] [[0, 0]]"
    using m modified_sumsq_errs_explicit [OF ws vb] by simp
  then have p3: "map val (m ! 0 ! 1) = [9, 1]"
    by (simp add: modified_sumsq_errs_closed_def modified_errs_closed_def sumsq_def
        example_overshoot_def upt_rec)
  show ?thesis
    by (intro conjI exI [of _ m]) (rule ws vb m p1 p2 p3)+
qed

section \<open>The entropy loss\<close>

lemma sum_list_upt:
  fixes f :: "nat \<Rightarrow> real"
  shows "sum_list (map f [0..<n]) = (\<Sum>i < n. f i)"
  by (simp add: interv_sum_list_conv_sum_set_nat atLeast0LessThan)

lemma map_over_indices: "map f xs = map (\<lambda>i. f (xs ! i)) [0..<length xs]"
  by (intro nth_equalityI) simp_all

lemma codebook_probs_length [simp]: "length (codebook_probs q m) = length m"
  by (simp add: codebook_probs_def scaled_neg_sumsq_errs_def)

lemma codebook_probs_nth_val:
  assumes "b < length m" "c < length (m ! b)" "k < length (m ! b ! c)"
  shows "val (codebook_probs q m ! b ! c ! k) = softmax_real (logits_real q (m ! b ! c)) ! k"
proof -
  have "k < length (codebook_probs q m ! b ! c)"
    using assms by (simp add: codebook_probs_def scaled_neg_sumsq_errs_def)
  then have "val (codebook_probs q m ! b ! c ! k) = map val (codebook_probs q m ! b ! c) ! k"
    by simp
  then show ?thesis by (simp only: codebook_probs_val [OF assms(1,2)])
qed

lemma avg_probs_val:
  assumes sh: "\<And>b. b < length m \<Longrightarrow> c < length (m ! b) \<and> length (m ! b ! c) = codebook_size q"
    and c: "c < num_codebooks q"
  shows "map val (avg_probs q m ! c) = usage_real q m c"
proof -
  have "val (mean (map (\<lambda>p. p ! c ! k) (codebook_probs q m))) =
      (\<Sum>b < length m. softmax_real (logits_real q (m ! b ! c)) ! k) / real (length m)"
    if k: "k < codebook_size q" for k
  proof -
    have "map val (map (\<lambda>p. p ! c ! k) (codebook_probs q m)) =
        map (\<lambda>b. val (codebook_probs q m ! b ! c ! k)) [0..<length m]"
      using map_over_indices [of "\<lambda>p. val (p ! c ! k)" "codebook_probs q m"] by (simp add: comp_def)
    also have "\<dots> = map (\<lambda>b. softmax_real (logits_real q (m ! b ! c)) ! k) [0..<length m]"
      using sh k by (intro map_cong refl codebook_probs_nth_val) simp_all
    finally show ?thesis by (simp only: mean_val sum_list_upt length_map codebook_probs_length)
  qed
  then show ?thesis using c by (simp add: avg_probs_def usage_real_def)
qed

lemma usage_real_pos:
  assumes sh: "\<And>b. b < length m \<Longrightarrow> length (m ! b ! c) = codebook_size q"
    and ne: "m \<noteq> []" and p: "p \<in> set (usage_real q m c)"
  shows "0 < p"
proof -
  from p obtain k where k: "k < codebook_size q"
    and pk: "p = (\<Sum>b < length m. softmax_real (logits_real q (m ! b ! c)) ! k) / real (length m)"
    by (auto simp: usage_real_def)
  have "0 < softmax_real (logits_real q (m ! b ! c)) ! k" if "b < length m" for b
  proof -
    have "k < length (softmax_real (logits_real q (m ! b ! c)))"
      using sh [OF that] k by (simp add: logits_real_def)
    then have "softmax_real (logits_real q (m ! b ! c)) ! k \<in> set (softmax_real (logits_real q (m ! b ! c)))"
      by (rule nth_mem)
    then show ?thesis by (rule softmax_real_pos)
  qed
  then have "0 < (\<Sum>b < length m. softmax_real (logits_real q (m ! b ! c)) ! k)"
    using ne by (intro sum_pos) auto
  then show ?thesis using ne pk by simp
qed

lemma usage_real_sum:
  assumes sh: "\<And>b. b < length m \<Longrightarrow> length (m ! b ! c) = codebook_size q"
    and ne: "m \<noteq> []" and K: "0 < codebook_size q"
  shows "sum_list (usage_real q m c) = 1"
proof -
  let ?P = "\<lambda>b k. softmax_real (logits_real q (m ! b ! c)) ! k"
  have row: "(\<Sum>k < codebook_size q. ?P b k) = 1" if b: "b < length m" for b
  proof -
    have l: "length (softmax_real (logits_real q (m ! b ! c))) = codebook_size q"
      using sh [OF b] by (simp add: logits_real_def)
    have "logits_real q (m ! b ! c) \<noteq> []" using sh [OF b] K by (auto simp: logits_real_def)
    then have "sum_list (softmax_real (logits_real q (m ! b ! c))) = 1" by (rule softmax_real_sum)
    then show ?thesis
      using l by (simp add: sum_list_sum_nth atLeast0LessThan)
  qed
  have "sum_list (usage_real q m c) = (\<Sum>k < codebook_size q. (\<Sum>b < length m. ?P b k) / real (length m))"
    by (simp only: usage_real_def sum_list_upt)
  also have "\<dots> = (\<Sum>k < codebook_size q. \<Sum>b < length m. ?P b k) / real (length m)"
    by (simp only: sum_divide_distrib)
  also have "(\<Sum>k < codebook_size q. \<Sum>b < length m. ?P b k) = (\<Sum>b < length m. \<Sum>k < codebook_size q. ?P b k)"
    by (rule sum.swap)
  also have "\<dots> = (\<Sum>b < length m. 1)" using row by simp
  finally show ?thesis using ne by simp
qed

lemma usage_real_length [simp]: "length (usage_real q m c) = codebook_size q"
  by (simp add: usage_real_def)

lemma mean_ge:
  fixes xs :: "real list"
  assumes "xs \<noteq> []" "\<And>x. x \<in> set xs \<Longrightarrow> lo \<le> x"
  shows "lo \<le> sum_list xs / real (length xs)"
proof -
  have n: "0 < real (length xs)" using assms(1) by simp
  have "sum_list (map (\<lambda>x. lo) xs) \<le> sum_list (map (\<lambda>x. x) xs)"
    using assms(2) by (intro sum_list_mono) simp
  then have "real (length xs) * lo \<le> sum_list xs" by (simp add: sum_list_triv)
  then show ?thesis using n by (simp add: field_simps)
qed

lemma entropy_loss_val:
  "val (entropy_loss q m) =
     ln (real (codebook_size q)) +
     sum_list (map (\<lambda>a. sum_list (map (\<lambda>p. p * ln (p + epsilon)) (map val a))) (avg_probs q m))
       / real (length (avg_probs q m))"
  by (simp add: entropy_loss_def class_entropy_def mean_val comp_def)

lemma entropy_loss_spec_val:
  "entropy_loss_spec q m =
     ln (real (codebook_size q)) +
     sum_list (map (\<lambda>a. sum_list (map (\<lambda>p. p * ln p) (map val a))) (avg_probs q m))
       / real (length (avg_probs q m))"
  by (simp add: entropy_loss_spec_def sum_list_uminus_real)

lemma entropy_loss_spec_bounds:
  assumes sh: "\<And>b c. b < length m \<Longrightarrow> c < num_codebooks q \<Longrightarrow>
      c < length (m ! b) \<and> length (m ! b ! c) = codebook_size q"
    and ne: "m \<noteq> []" and C: "0 < num_codebooks q" and K: "0 < codebook_size q"
  shows "0 \<le> entropy_loss_spec q m"
    and "entropy_loss_spec q m = 0 \<longleftrightarrow> uniform_usage q m"
    and "entropy_loss_spec q m \<le> val (entropy_loss q m)"
    and "val (entropy_loss q m) \<le> entropy_loss_spec q m + real (codebook_size q) * epsilon"
proof -
  let ?K = "real (codebook_size q)"
  let ?lo = "- ln ?K"
  let ?S = "\<lambda>a. sum_list (map (\<lambda>p. p * ln p) (map val a))"
  let ?G = "\<lambda>a. sum_list (map (\<lambda>p. p * ln (p + epsilon)) (map val a))"
  let ?T = "map ?S (avg_probs q m)"
  let ?U = "map ?G (avg_probs q m)"
  have la: "length (avg_probs q m) = num_codebooks q" by (simp add: avg_probs_def)
  have n: "0 < real (length (avg_probs q m))" using la C by simp
  have av: "map val (avg_probs q m ! c) = usage_real q m c" if "c < num_codebooks q" for c
    using sh that by (intro avg_probs_val) simp_all
  have pos: "0 < p" if "c < num_codebooks q" "p \<in> set (usage_real q m c)" for c p
    using sh that ne by (intro usage_real_pos [of m c q]) simp_all
  have row: "?lo \<le> ?S (avg_probs q m ! c)"
      "?S (avg_probs q m ! c) = ?lo \<longleftrightarrow> (\<forall>p \<in> set (usage_real q m c). p = 1 / ?K)"
      "?S (avg_probs q m ! c) \<le> ?G (avg_probs q m ! c)"
      "?G (avg_probs q m ! c) \<le> ?S (avg_probs q m ! c) + ?K * epsilon"
    if c: "c < num_codebooks q" for c
  proof -
    have one: "sum_list (usage_real q m c) = 1"
      using sh c ne K by (intro usage_real_sum) simp_all
    from entropy_uniform [of "usage_real q m c", OF pos [OF c] one]
    show "?lo \<le> ?S (avg_probs q m ! c)"
      "?S (avg_probs q m ! c) = ?lo \<longleftrightarrow> (\<forall>p \<in> set (usage_real q m c). p = 1 / ?K)"
      unfolding av [OF c] by simp_all
    from guard_row [of "usage_real q m c", OF pos [OF c]]
    show "?S (avg_probs q m ! c) \<le> ?G (avg_probs q m ! c)"
      "?G (avg_probs q m ! c) \<le> ?S (avg_probs q m ! c) + ?K * epsilon"
      unfolding av [OF c] by simp_all
  qed
  have Tne: "?T \<noteq> []" using la C by auto
  have Tlo: "?lo \<le> t" if "t \<in> set ?T" for t
  proof -
    from that obtain c where "c < num_codebooks q" "t = ?S (avg_probs q m ! c)"
      using la by (auto simp: in_set_conv_nth)
    with row(1) show ?thesis by simp
  qed
  have v: "entropy_loss_spec q m = ln ?K + sum_list ?T / real (length ?T)"
    by (simp only: entropy_loss_spec_val length_map)
  have w: "val (entropy_loss q m) = ln ?K + sum_list ?U / real (length ?T)"
    by (simp only: entropy_loss_val length_map)
  have "?lo \<le> sum_list ?T / real (length ?T)"
    using Tne Tlo by (rule mean_ge)
  then show "0 \<le> entropy_loss_spec q m" unfolding v by simp
  have "sum_list ?T / real (length ?T) = ?lo \<longleftrightarrow> (\<forall>t \<in> set ?T. t = ?lo)"
    using Tne Tlo by (rule mean_lower_eq)
  also have "\<dots> \<longleftrightarrow> (\<forall>c < num_codebooks q. ?S (avg_probs q m ! c) = ?lo)"
    using la by (simp add: all_set_conv_all_nth)
  also have "\<dots> \<longleftrightarrow> (\<forall>c < num_codebooks q. \<forall>p \<in> set (usage_real q m c). p = 1 / ?K)"
    using row(2) by simp
  also have "\<dots> \<longleftrightarrow> (\<forall>c < num_codebooks q. \<forall>p \<in> set (map val (avg_probs q m ! c)). p = 1 / ?K)"
    using av by simp
  also have "\<dots> \<longleftrightarrow> uniform_usage q m"
    using la by (simp add: uniform_usage_def list_all_length all_set_conv_all_nth)
  finally show "entropy_loss_spec q m = 0 \<longleftrightarrow> uniform_usage q m"
    unfolding v by auto
  have TU: "sum_list ?T \<le> sum_list ?U"
  proof (rule sum_list_mono)
    fix a assume "a \<in> set (avg_probs q m)"
    then obtain c where "c < num_codebooks q" "a = avg_probs q m ! c"
      using la by (auto simp: in_set_conv_nth)
    with row(3) show "?S a \<le> ?G a" by simp
  qed
  have "sum_list ?U \<le> sum_list (map (\<lambda>a. ?S a + ?K * epsilon) (avg_probs q m))"
  proof (rule sum_list_mono)
    fix a assume "a \<in> set (avg_probs q m)"
    then obtain c where "c < num_codebooks q" "a = avg_probs q m ! c"
      using la by (auto simp: in_set_conv_nth)
    with row(4) show "?G a \<le> ?S a + ?K * epsilon" by simp
  qed
  also have "\<dots> = sum_list ?T + real (length ?T) * (?K * epsilon)"
    by (simp add: sum_list_addf sum_list_triv)
  finally have UT: "sum_list ?U \<le> sum_list ?T + real (length ?T) * (?K * epsilon)" .
  have n': "0 < real (length ?T)" using n by simp
  from TU n' have "sum_list ?T / real (length ?T) \<le> sum_list ?U / real (length ?T)"
    by (simp add: divide_right_mono)
  then show "entropy_loss_spec q m \<le> val (entropy_loss q m)" unfolding v w by simp
  from UT n' have "sum_list ?U / real (length ?T) \<le>
      (sum_list ?T + real (length ?T) * (?K * epsilon)) / real (length ?T)"
    by (simp add: divide_right_mono)
  also have "\<dots> = sum_list ?T / real (length ?T) + ?K * epsilon"
    using n' by (simp add: add_divide_distrib)
  finally show "val (entropy_loss q m) \<le> entropy_loss_spec q m + ?K * epsilon"
    unfolding v w by simp
qed


lemma entropy_loss_spec_closed_bounds:
  assumes vb: "valid_batch q x indexes" and ne: "x \<noteq> []" and C: "0 < num_codebooks q"
  shows "\<bar>val (entropy_loss q (modified_sumsq_errs_closed q x indexes)) -
           entropy_loss_spec q (modified_sumsq_errs_closed q x indexes)\<bar>
         \<le> real (codebook_size q) * epsilon"
    and "entropy_loss_spec q (modified_sumsq_errs_closed q x indexes) = 0 \<longleftrightarrow>
         uniform_usage q (modified_sumsq_errs_closed q x indexes)"
    and "uniform_usage q (modified_sumsq_errs_closed q x indexes) \<longrightarrow>
         \<bar>val (entropy_loss q (modified_sumsq_errs_closed q x indexes))\<bar>
         \<le> real (codebook_size q) * epsilon"
    and "\<not> uniform_usage q (modified_sumsq_errs_closed q x indexes) \<longrightarrow>
         0 < entropy_loss_spec q (modified_sumsq_errs_closed q x indexes) \<and>
         0 < val (entropy_loss q (modified_sumsq_errs_closed q x indexes))"
proof -
  let ?m = "modified_sumsq_errs_closed q x indexes"
  have ine: "indexes \<noteq> []" using vb ne by (rule valid_batch_nonempty)
  have K: "0 < codebook_size q" using vb ine C by (rule codebook_size_pos)
  have lm: "length ?m = length indexes" by (simp add: modified_sumsq_errs_closed_def)
  have sh: "c < length (?m ! b) \<and> length (?m ! b ! c) = codebook_size q"
    if "b < length ?m" "c < num_codebooks q" for b c
  proof -
    have bl: "b < length indexes" using that(1) lm by simp
    show ?thesis using msq_shape(2) [OF bl, of q x] msq_shape(3) [OF bl that(2), of x] that(2)
      by simp
  qed
  have mne: "?m \<noteq> []" using ine lm by auto
  have b1: "0 \<le> entropy_loss_spec q ?m"
    using sh mne C K by (rule entropy_loss_spec_bounds(1))
  have b2: "entropy_loss_spec q ?m = 0 \<longleftrightarrow> uniform_usage q ?m"
    using sh mne C K by (rule entropy_loss_spec_bounds(2))
  have b3: "entropy_loss_spec q ?m \<le> val (entropy_loss q ?m)"
    using sh mne C K by (rule entropy_loss_spec_bounds(3))
  have b4: "val (entropy_loss q ?m) \<le> entropy_loss_spec q ?m + real (codebook_size q) * epsilon"
    using sh mne C K by (rule entropy_loss_spec_bounds(4))
  show "\<bar>val (entropy_loss q ?m) - entropy_loss_spec q ?m\<bar> \<le> real (codebook_size q) * epsilon"
    using b3 b4 by linarith
  show "entropy_loss_spec q ?m = 0 \<longleftrightarrow> uniform_usage q ?m" by (rule b2)
  show "uniform_usage q ?m \<longrightarrow> \<bar>val (entropy_loss q ?m)\<bar> \<le> real (codebook_size q) * epsilon"
    using b2 b3 b4 by auto
  show "\<not> uniform_usage q ?m \<longrightarrow> 0 < entropy_loss_spec q ?m \<and> 0 < val (entropy_loss q ?m)"
    using b1 b2 b3 by auto
qed

lemma example_balanced_uniform:
  "uniform_usage example_balanced (modified_sumsq_errs_closed example_balanced [[const 1]] [[0]])"
  by (simp add: uniform_usage_def avg_probs_def codebook_probs_def scaled_neg_sumsq_errs_def
      softmax_def mean_def modified_sumsq_errs_closed_def modified_errs_closed_def sumsq_def
      example_balanced_def upt_rec)

lemma example_overshoot_not_uniform:
  "\<not> uniform_usage example_overshoot (modified_sumsq_errs_closed example_overshoot [[const 3]] [[0, 0]])"
  by (simp add: uniform_usage_def avg_probs_def codebook_probs_def scaled_neg_sumsq_errs_def
      softmax_def mean_def modified_sumsq_errs_closed_def modified_errs_closed_def sumsq_def
      example_overshoot_def upt_rec)

text \<open>
  Claim C7. The specification's entropy loss, \<open>log K\<close> minus the entropy of the batch-averaged
  usage of each codebook, is zero if and only if the usage of every codebook is exactly
  uniform, and is strictly positive otherwise. \<^verbatim>\<open>class_entropy\<close> takes the logarithm of
  \<open>avg_probs + 1.0e-20\<close>, and the \<open>entropy_loss\<close> returned by \<^verbatim>\<open>refine_indexes_stochastic\<close>
  (and by \<^verbatim>\<open>forward\<close> after at least one iteration) differs from the specification's value
  by at most \<open>codebook_size * 1e-20\<close>: for every well-shaped quantizer, every non-empty batch
  and every code tuple in range it is zero within that tolerance when the usage is uniform,
  and strictly positive when it is not.
\<close>

theorem entropy_loss_zero_iff_uniform:
  assumes "well_shaped q" and "valid_batch q x indexes" and "x \<noteq> []" and "0 < num_codebooks q"
  shows "(\<exists>m new el fe rl. modified_sumsq_errs q x indexes = Inr m \<and>
            refine_indexes_stochastic q u x indexes = Inr (new, el, fe, rl) \<and>
            \<bar>val el - entropy_loss_spec q m\<bar> \<le> real (codebook_size q) * epsilon \<and>
            (entropy_loss_spec q m = 0 \<longleftrightarrow> uniform_usage q m) \<and>
            (uniform_usage q m \<longrightarrow> \<bar>val el\<bar> \<le> real (codebook_size q) * epsilon) \<and>
            (\<not> uniform_usage q m \<longrightarrow> 0 < entropy_loss_spec q m \<and> 0 < val el)) \<and>
         (2 \<le> codebook_size q \<and> 0 < num_iters \<longrightarrow>
            (\<exists>idx' m idx el fe rl. valid_batch q x idx' \<and> modified_sumsq_errs q x idx' = Inr m \<and>
               forward q raw us x num_iters = Inr (idx, el, fe, rl) \<and>
               \<bar>val el - entropy_loss_spec q m\<bar> \<le> real (codebook_size q) * epsilon \<and>
               (entropy_loss_spec q m = 0 \<longleftrightarrow> uniform_usage q m) \<and>
               (uniform_usage q m \<longrightarrow> \<bar>val el\<bar> \<le> real (codebook_size q) * epsilon) \<and>
               (\<not> uniform_usage q m \<longrightarrow> 0 < entropy_loss_spec q m \<and> 0 < val el)))"
proof
  let ?m = "modified_sumsq_errs_closed q x indexes"
  note b = entropy_loss_spec_closed_bounds [OF assms(2,3,4)]
  show "\<exists>m new el fe rl. modified_sumsq_errs q x indexes = Inr m \<and>
            refine_indexes_stochastic q u x indexes = Inr (new, el, fe, rl) \<and>
            \<bar>val el - entropy_loss_spec q m\<bar> \<le> real (codebook_size q) * epsilon \<and>
            (entropy_loss_spec q m = 0 \<longleftrightarrow> uniform_usage q m) \<and>
            (uniform_usage q m \<longrightarrow> \<bar>val el\<bar> \<le> real (codebook_size q) * epsilon) \<and>
            (\<not> uniform_usage q m \<longrightarrow> 0 < entropy_loss_spec q m \<and> 0 < val el)"
    by (intro exI [of _ ?m] exI [of _ "entropy_loss q ?m"] exI conjI)
      (rule modified_sumsq_errs_explicit [OF assms(1,2)]
        refine_indexes_stochastic_eq [OF assms(1,2)] b)+
  show "2 \<le> codebook_size q \<and> 0 < num_iters \<longrightarrow>
            (\<exists>idx' m idx el fe rl. valid_batch q x idx' \<and> modified_sumsq_errs q x idx' = Inr m \<and>
               forward q raw us x num_iters = Inr (idx, el, fe, rl) \<and>
               \<bar>val el - entropy_loss_spec q m\<bar> \<le> real (codebook_size q) * epsilon \<and>
               (entropy_loss_spec q m = 0 \<longleftrightarrow> uniform_usage q m) \<and>
               (uniform_usage q m \<longrightarrow> \<bar>val el\<bar> \<le> real (codebook_size q) * epsilon) \<and>
               (\<not> uniform_usage q m \<longrightarrow> 0 < entropy_loss_spec q m \<and> 0 < val el))"
  proof
    assume h: "2 \<le> codebook_size q \<and> 0 < num_iters"
    have xl: "list_all (\<lambda>r. length r = dim q) x" using assms(2) by (simp add: valid_batch_def)
    from forward_last_iteration [OF assms(1) _ xl, of num_iters us raw] h
    obtain idx' idx losses where
      f: "valid_batch q x idx'"
      "refine_indexes_stochastic q (us (num_iters - 1)) x idx' = Inr (idx, losses)"
      "forward q raw us x num_iters = Inr (idx, losses)" by blast
    let ?m' = "modified_sumsq_errs_closed q x idx'"
    from f(2) refine_indexes_stochastic_eq [OF assms(1) f(1), of "us (num_iters - 1)"]
    have "losses = (entropy_loss q ?m', avg_frame_entropy q ?m', reconstruction_loss q ?m' x)"
      by simp
    with f(3) have fw: "forward q raw us x num_iters =
        Inr (idx, entropy_loss q ?m', avg_frame_entropy q ?m', reconstruction_loss q ?m' x)"
      by simp
    note b' = entropy_loss_spec_closed_bounds [OF f(1) assms(3,4)]
    show "\<exists>idx' m idx el fe rl. valid_batch q x idx' \<and> modified_sumsq_errs q x idx' = Inr m \<and>
               forward q raw us x num_iters = Inr (idx, el, fe, rl) \<and>
               \<bar>val el - entropy_loss_spec q m\<bar> \<le> real (codebook_size q) * epsilon \<and>
               (entropy_loss_spec q m = 0 \<longleftrightarrow> uniform_usage q m) \<and>
               (uniform_usage q m \<longrightarrow> \<bar>val el\<bar> \<le> real (codebook_size q) * epsilon) \<and>
               (\<not> uniform_usage q m \<longrightarrow> 0 < entropy_loss_spec q m \<and> 0 < val el)"
      by (intro exI [of _ idx'] exI [of _ ?m'] exI [of _ idx] exI [of _ "entropy_loss q ?m'"]
            exI conjI)
        (rule f(1) modified_sumsq_errs_explicit [OF assms(1) f(1)] fw b')+
  qed
qed

theorem entropy_loss_zero_iff_uniform_witness:
  "well_shaped example_balanced \<and> valid_batch example_balanced [[const 1]] [[0]] \<and>
   (\<exists>m new el fe rl. modified_sumsq_errs example_balanced [[const 1]] [[0]] = Inr m \<and>
      refine_indexes_stochastic example_balanced (\<lambda>b c. 0) [[const 1]] [[0]] = Inr (new, el, fe, rl) \<and>
      uniform_usage example_balanced m \<and> entropy_loss_spec example_balanced m = 0 \<and>
      \<bar>val el\<bar> \<le> 2 * epsilon) \<and>
   (\<exists>idx' m idx el fe rl. valid_batch example_balanced [[const 1]] idx' \<and>
      modified_sumsq_errs example_balanced [[const 1]] idx' = Inr m \<and>
      forward example_balanced (\<lambda>b c. 0) (\<lambda>i b c. 0) [[const 1]] 1 = Inr (idx, el, fe, rl) \<and>
      \<bar>val el - entropy_loss_spec example_balanced m\<bar> \<le> 2 * epsilon) \<and>
   well_shaped example_overshoot \<and> valid_batch example_overshoot [[const 3]] [[0, 0]] \<and>
   (\<exists>m new el fe rl. modified_sumsq_errs example_overshoot [[const 3]] [[0, 0]] = Inr m \<and>
      refine_indexes_stochastic example_overshoot (\<lambda>b c. 0) [[const 3]] [[0, 0]] = Inr (new, el, fe, rl) \<and>
      \<not> uniform_usage example_overshoot m \<and> 0 < entropy_loss_spec example_overshoot m \<and>
      0 < val el)"
proof -
  let ?m = "modified_sumsq_errs_closed example_balanced [[const 1]] [[0]]"
  let ?n = "modified_sumsq_errs_closed example_overshoot [[const 3]] [[0, 0]]"
  have ws: "well_shaped example_balanced"
    by (simp add: example_balanced_def well_shaped_def)
  have vb: "valid_batch example_balanced [[const 1]] [[0]]"
    by (simp add: example_balanced_def valid_batch_def in_range_def)
  have ne: "[[const 1]] \<noteq> []" by simp
  have C: "0 < num_codebooks example_balanced" by (simp add: example_balanced_def)
  have K: "2 \<le> codebook_size example_balanced \<and> 0 < (1 :: nat)"
    by (simp add: example_balanced_def)
  have k2: "real (codebook_size example_balanced) = 2" by (simp add: example_balanced_def)
  have me: "modified_sumsq_errs example_balanced [[const 1]] [[0]] = Inr ?m"
    by (rule modified_sumsq_errs_explicit [OF ws vb])
  note t = entropy_loss_zero_iff_uniform [OF ws vb ne C, of "\<lambda>b c. 0" 1 "\<lambda>b c. 0" "\<lambda>i b c. 0",
      unfolded k2 me]
  from t [THEN conjunct1] obtain new el fe rl where
    r: "refine_indexes_stochastic example_balanced (\<lambda>b c. 0) [[const 1]] [[0]] = Inr (new, el, fe, rl)"
    and z: "entropy_loss_spec example_balanced ?m = 0 \<longleftrightarrow> uniform_usage example_balanced ?m"
    and uz: "uniform_usage example_balanced ?m \<longrightarrow> \<bar>val el\<bar> \<le> 2 * epsilon"
    by auto
  have p1: "\<exists>m new el fe rl. modified_sumsq_errs example_balanced [[const 1]] [[0]] = Inr m \<and>
      refine_indexes_stochastic example_balanced (\<lambda>b c. 0) [[const 1]] [[0]] = Inr (new, el, fe, rl) \<and>
      uniform_usage example_balanced m \<and> entropy_loss_spec example_balanced m = 0 \<and>
      \<bar>val el\<bar> \<le> 2 * epsilon"
    using me r z uz example_balanced_uniform by blast
  have p2: "\<exists>idx' m idx el fe rl. valid_batch example_balanced [[const 1]] idx' \<and>
      modified_sumsq_errs example_balanced [[const 1]] idx' = Inr m \<and>
      forward example_balanced (\<lambda>b c. 0) (\<lambda>i b c. 0) [[const 1]] 1 = Inr (idx, el, fe, rl) \<and>
      \<bar>val el - entropy_loss_spec example_balanced m\<bar> \<le> 2 * epsilon"
    using t [THEN conjunct2] K by blast
  have ws': "well_shaped example_overshoot"
    by (simp add: example_overshoot_def well_shaped_def)
  have vb': "valid_batch example_overshoot [[const 3]] [[0, 0]]"
    by (simp add: example_overshoot_def valid_batch_def in_range_def)
  have ne': "[[const 3]] \<noteq> []" by simp
  have C': "0 < num_codebooks example_overshoot" by (simp add: example_overshoot_def)
  have me': "modified_sumsq_errs example_overshoot [[const 3]] [[0, 0]] = Inr ?n"
    by (rule modified_sumsq_errs_explicit [OF ws' vb'])
  note t' = entropy_loss_zero_iff_uniform [OF ws' vb' ne' C', of "\<lambda>b c. 0" 1 "\<lambda>b c. 0" "\<lambda>i b c. 0",
      unfolded me']
  from t' [THEN conjunct1] obtain new el fe rl where
    r': "refine_indexes_stochastic example_overshoot (\<lambda>b c. 0) [[const 3]] [[0, 0]] =
        Inr (new, el, fe, rl)"
    and nz: "\<not> uniform_usage example_overshoot ?n \<longrightarrow>
        0 < entropy_loss_spec example_overshoot ?n \<and> 0 < val el"
    by auto
  have p3: "\<exists>m new el fe rl. modified_sumsq_errs example_overshoot [[const 3]] [[0, 0]] = Inr m \<and>
      refine_indexes_stochastic example_overshoot (\<lambda>b c. 0) [[const 3]] [[0, 0]] = Inr (new, el, fe, rl) \<and>
      \<not> uniform_usage example_overshoot m \<and> 0 < entropy_loss_spec example_overshoot m \<and>
      0 < val el"
    using me' r' nz example_overshoot_not_uniform by blast
  show ?thesis using ws vb p1 p2 ws' vb' p3 by (intro conjI)
qed

section \<open>Gradient paths, the initial indexes, and the division by the energy\<close>

lemma leaves_softmax_nth:
  assumes "k < length z"
  shows "leaves (softmax z ! k) = \<Union> (leaves ` set z)"
proof -
  have "z ! k \<in> set z" using assms by simp
  then have "leaves (z ! k) \<subseteq> \<Union> (leaves ` set z)" by blast
  moreover have "leaves (softmax z ! k) = leaves (z ! k) \<union> \<Union> (leaves ` set z)"
    using assms by (simp add: softmax_def image_image)
  ultimately show ?thesis by blast
qed

lemma leaves_log_softmax_nth:
  assumes "k < length z"
  shows "leaves (log_softmax z ! k) = \<Union> (leaves ` set z)"
proof -
  have "z ! k \<in> set z" using assms by simp
  then have "leaves (z ! k) \<subseteq> \<Union> (leaves ` set z)" by blast
  moreover have "leaves (log_softmax z ! k) = leaves (z ! k) \<union> \<Union> (leaves ` set z)"
    using assms by (simp add: log_softmax_def image_image)
  ultimately show ?thesis by blast
qed

lemma leaves_mean: "leaves (mean xs) = \<Union> (leaves ` set xs)"
  by (simp add: mean_def)

lemma leaves_frame_term:
  assumes "s \<noteq> []"
  shows "leaves (sum_list (map2 (*) (log_softmax s) (softmax s))) = \<Union> (leaves ` set s)"
proof -
  have m: "map2 (*) (log_softmax s) (softmax s) =
      map (\<lambda>k. log_softmax s ! k * softmax s ! k) [0..<length s]"
    by (intro nth_equalityI) simp_all
  have "leaves (sum_list (map2 (*) (log_softmax s) (softmax s))) =
      (\<Union>k \<in> {0..<length s}. leaves (log_softmax s ! k * softmax s ! k))"
    unfolding m by (simp add: image_image)
  also have "\<dots> = (\<Union>k \<in> {0..<length s}. \<Union> (leaves ` set s))"
    by (simp add: leaves_softmax_nth leaves_log_softmax_nth)
  also have "\<dots> = \<Union> (leaves ` set s)" using assms by auto
  finally show ?thesis .
qed

lemma avg_frame_entropy_leaves:
  assumes ne: "indexes \<noteq> []" and C: "0 < num_codebooks q" and K: "0 < codebook_size q"
  shows "leaves (avg_frame_entropy q (modified_sumsq_errs_closed q x indexes)) =
     leaves (frame_entropy_scale q)"
proof -
  let ?m = "modified_sumsq_errs_closed q x indexes"
  let ?g = "\<lambda>e. detach e * - exp_scalar (const 10 * frame_entropy_scale q)"
  let ?F = "\<lambda>s. sum_list (map2 (*) (log_softmax s) (softmax s))"
  let ?S = "concat (scaled_neg_sumsq_errs_detached q ?m)"
  have S: "?S = map (map ?g) (concat ?m)"
    by (simp only: scaled_neg_sumsq_errs_detached_def map_concat)
  have Sne: "?S \<noteq> []" using msq_concat_nonempty [OF ne C, of x] unfolding S by simp
  have "leaves (?F s) = leaves (frame_entropy_scale q)" if "s \<in> set ?S" for s
  proof -
    from that obtain r where r: "r \<in> set (concat ?m)" "s = map ?g r" unfolding S by auto
    have "length r = codebook_size q" using r(1) by (rule msq_rows)
    then have rne: "r \<noteq> []" using K by auto
    then have "s \<noteq> []" using r(2) by simp
    then have "leaves (?F s) = \<Union> (leaves ` set s)" by (rule leaves_frame_term)
    also have "\<dots> = (\<Union>e \<in> set r. leaves (frame_entropy_scale q))"
      unfolding r(2) by (simp add: image_image)
    also have "\<dots> = leaves (frame_entropy_scale q)" using rne by auto
    finally show ?thesis .
  qed
  then have "(\<Union>s \<in> set ?S. leaves (?F s)) = (\<Union>s \<in> set ?S. leaves (frame_entropy_scale q))"
    by simp
  also have "\<dots> = leaves (frame_entropy_scale q)" using Sne by auto
  finally show ?thesis
    by (simp add: avg_frame_entropy_eq leaves_mean image_image)
qed

lemma set_as_nth: "set xs = nth xs ` {0..<length xs}"
  using nth_image [of "length xs" xs] by simp

lemma batch_leaves_rows:
  "batch_leaves x = (\<Union>b \<in> {0..<length x}. \<Union> (leaves ` set (x ! b)))"
proof -
  have "batch_leaves x = (\<Union>r \<in> set x. \<Union> (leaves ` set r))"
    by (auto simp: batch_leaves_def)
  also have "\<dots> = (\<Union>b \<in> {0..<length x}. \<Union> (leaves ` set (x ! b)))"
    by (subst set_as_nth [of x]) (simp only: image_image)
  finally show ?thesis .
qed

lemma msq_cell_leaves:
  assumes ws: "well_shaped q" and vb: "valid_batch q x indexes" and pal: "parameters_are_leaves q"
    and b: "b < length indexes" and c: "c < num_codebooks q" and K: "0 < codebook_size q"
  shows "\<Union> (leaves ` set (modified_sumsq_errs_closed q x indexes ! b ! c)) =
    {Centers} \<union> \<Union> (leaves ` set (x ! b))"
proof -
  let ?r = "modified_sumsq_errs_closed q x indexes ! b ! c"
  have l: "length ?r = codebook_size q" using msq_shape(3) [OF b c] .
  have "\<Union> (leaves ` set ?r) = (\<Union>k \<in> {0..<codebook_size q}. leaves (?r ! k))"
    by (subst set_as_nth [of ?r]) (simp only: image_image l)
  also have "\<dots> = (\<Union>k \<in> {0..<codebook_size q}. {Centers} \<union> \<Union> (leaves ` set (x ! b)))"
    using msq_leaves [OF ws vb pal b c] by simp
  also have "\<dots> = {Centers} \<union> \<Union> (leaves ` set (x ! b))" using K by auto
  finally show ?thesis .
qed

lemma codebook_probs_leaves:
  assumes ws: "well_shaped q" and vb: "valid_batch q x indexes" and pal: "parameters_are_leaves q"
    and b: "b < length indexes" and c: "c < num_codebooks q" and k: "k < codebook_size q"
  shows "leaves (codebook_probs q (modified_sumsq_errs_closed q x indexes) ! b ! c ! k) =
    {Centers} \<union> \<Union> (leaves ` set (x ! b))"
proof -
  let ?m = "modified_sumsq_errs_closed q x indexes"
  let ?g = "\<lambda>e. e * - exp_scalar (const 10 * detach (frame_entropy_scale q))"
  have K: "0 < codebook_size q" using k by simp
  have lb: "b < length ?m" "c < length (?m ! b)" "k < length (?m ! b ! c)"
    using msq_shape(1) [OF b, of q x] msq_shape(2) [OF b, of q x] msq_shape(3) [OF b c, of x] b c k
    by simp_all
  have "codebook_probs q ?m ! b ! c ! k = softmax (map ?g (?m ! b ! c)) ! k"
    using lb by (simp add: codebook_probs_def scaled_neg_sumsq_errs_def)
  also have "leaves \<dots> = \<Union> (leaves ` set (map ?g (?m ! b ! c)))"
    using lb by (intro leaves_softmax_nth) simp
  also have "\<dots> = \<Union> (leaves ` set (?m ! b ! c))" by (simp add: image_image)
  finally show ?thesis by (simp only: msq_cell_leaves [OF ws vb pal b c K])
qed

lemma entropy_loss_leaves:
  assumes ws: "well_shaped q" and vb: "valid_batch q x indexes" and pal: "parameters_are_leaves q"
    and ne: "x \<noteq> []" and C: "0 < num_codebooks q"
  shows "leaves (entropy_loss q (modified_sumsq_errs_closed q x indexes)) =
    {Centers} \<union> batch_leaves x"
proof -
  let ?m = "modified_sumsq_errs_closed q x indexes"
  have ine: "indexes \<noteq> []" using vb ne by (rule valid_batch_nonempty)
  have K: "0 < codebook_size q" using vb ine C by (rule codebook_size_pos)
  have len: "length x = length indexes" using vb by (simp add: valid_batch_def)
  have cell: "leaves (avg_probs q ?m ! c ! k) = {Centers} \<union> batch_leaves x"
    if c: "c < num_codebooks q" and k: "k < codebook_size q" for c k
  proof -
    have "avg_probs q ?m ! c ! k = mean (map (\<lambda>p. p ! c ! k) (codebook_probs q ?m))"
      using c k by (simp add: avg_probs_def)
    also have "map (\<lambda>p. p ! c ! k) (codebook_probs q ?m) =
        map (\<lambda>b. codebook_probs q ?m ! b ! c ! k) [0..<length indexes]"
      using map_over_indices [of "\<lambda>p. p ! c ! k" "codebook_probs q ?m"]
      by (simp add: modified_sumsq_errs_closed_def)
    finally have "leaves (avg_probs q ?m ! c ! k) =
        (\<Union>b \<in> {0..<length indexes}. leaves (codebook_probs q ?m ! b ! c ! k))"
      by (simp add: leaves_mean image_image)
    also have "\<dots> = (\<Union>b \<in> {0..<length indexes}. {Centers} \<union> \<Union> (leaves ` set (x ! b)))"
      using codebook_probs_leaves [OF ws vb pal _ c k] by simp
    also have "\<dots> = {Centers} \<union> (\<Union>b \<in> {0..<length indexes}. \<Union> (leaves ` set (x ! b)))"
      using ine by auto
    finally show ?thesis by (simp only: batch_leaves_rows len)
  qed
  have "leaves (entropy_loss q ?m) =
      (\<Union>a \<in> set (avg_probs q ?m). \<Union>p \<in> set a. leaves p)"
    by (simp add: entropy_loss_def class_entropy_def leaves_mean image_image)
  also have "\<dots> = (\<Union>c \<in> {0..<num_codebooks q}. \<Union>p \<in> set (avg_probs q ?m ! c). leaves p)"
    by (subst set_as_nth [of "avg_probs q ?m"]) (simp add: avg_probs_def)
  also have "\<dots> = (\<Union>c \<in> {0..<num_codebooks q}. \<Union>k \<in> {0..<codebook_size q}.
      leaves (avg_probs q ?m ! c ! k))"
  proof -
    have "(\<Union>p \<in> set (avg_probs q ?m ! c). leaves p) =
        (\<Union>k \<in> {0..<codebook_size q}. leaves (avg_probs q ?m ! c ! k))"
      if "c < num_codebooks q" for c
      using that by (subst set_as_nth [of "avg_probs q ?m ! c"]) (simp add: avg_probs_def)
    then show ?thesis by simp
  qed
  also have "\<dots> = (\<Union>c \<in> {0..<num_codebooks q}. \<Union>k \<in> {0..<codebook_size q}.
      {Centers} \<union> batch_leaves x)"
    using cell by simp
  also have "\<dots> = {Centers} \<union> batch_leaves x" using C K by auto
  finally show ?thesis .
qed

lemma leaves_weighted_cell:
  assumes "r \<noteq> []"
  shows "\<Union> (leaves ` set (map2 (*) (softmax (map g r)) r)) =
     \<Union> (leaves ` set (map g r)) \<union> \<Union> (leaves ` set r)"
proof -
  have m: "map2 (*) (softmax (map g r)) r = map (\<lambda>k. softmax (map g r) ! k * r ! k) [0..<length r]"
    by (intro nth_equalityI) simp_all
  have "\<Union> (leaves ` set (map2 (*) (softmax (map g r)) r)) =
      (\<Union>k \<in> {0..<length r}. leaves (softmax (map g r) ! k) \<union> leaves (r ! k))"
    unfolding m by (simp add: image_image)
  also have "\<dots> = (\<Union>k \<in> {0..<length r}. \<Union> (leaves ` set (map g r)) \<union> leaves (r ! k))"
    by (simp add: leaves_softmax_nth)
  also have "\<dots> = \<Union> (leaves ` set (map g r)) \<union> (\<Union>k \<in> {0..<length r}. leaves (r ! k))"
    using assms by auto
  also have "(\<Union>k \<in> {0..<length r}. leaves (r ! k)) = \<Union> (leaves ` set r)"
    by (subst set_as_nth [of r]) (simp only: image_image)
  finally show ?thesis .
qed

lemma msq_all_leaves:
  assumes ws: "well_shaped q" and vb: "valid_batch q x indexes" and pal: "parameters_are_leaves q"
    and ne: "x \<noteq> []" and C: "0 < num_codebooks q"
  shows "(\<Union>r \<in> set (concat (modified_sumsq_errs_closed q x indexes)). \<Union> (leaves ` set r)) =
    {Centers} \<union> batch_leaves x"
proof -
  let ?m = "modified_sumsq_errs_closed q x indexes"
  have ine: "indexes \<noteq> []" using vb ne by (rule valid_batch_nonempty)
  have K: "0 < codebook_size q" using vb ine C by (rule codebook_size_pos)
  have len: "length x = length indexes" using vb by (simp add: valid_batch_def)
  have lm: "length ?m = length indexes" by (simp add: modified_sumsq_errs_closed_def)
  have "(\<Union>r \<in> set (concat ?m). \<Union> (leaves ` set r)) =
      (\<Union>row \<in> set ?m. \<Union>r \<in> set row. \<Union> (leaves ` set r))" by auto
  also have "\<dots> = (\<Union>b \<in> {0..<length indexes}. \<Union>r \<in> set (?m ! b). \<Union> (leaves ` set r))"
    by (subst set_as_nth [of ?m]) (simp only: image_image lm)
  also have "\<dots> = (\<Union>b \<in> {0..<length indexes}. \<Union>c \<in> {0..<num_codebooks q}.
      \<Union> (leaves ` set (?m ! b ! c)))"
  proof -
    have "(\<Union>r \<in> set (?m ! b). \<Union> (leaves ` set r)) =
        (\<Union>c \<in> {0..<num_codebooks q}. \<Union> (leaves ` set (?m ! b ! c)))"
      if b: "b < length indexes" for b
      by (subst set_as_nth [of "?m ! b"]) (simp only: image_image msq_shape(2) [OF b])
    then show ?thesis by simp
  qed
  also have "\<dots> = (\<Union>b \<in> {0..<length indexes}. \<Union>c \<in> {0..<num_codebooks q}.
      {Centers} \<union> \<Union> (leaves ` set (x ! b)))"
    using msq_cell_leaves [OF ws vb pal _ _ K] by simp
  also have "\<dots> = (\<Union>b \<in> {0..<length indexes}. {Centers} \<union> \<Union> (leaves ` set (x ! b)))"
    using C by auto
  also have "\<dots> = {Centers} \<union> (\<Union>b \<in> {0..<length indexes}. \<Union> (leaves ` set (x ! b)))"
    using ine by auto
  finally show ?thesis by (simp only: batch_leaves_rows len)
qed

lemma concat_concat_map: "concat (concat (map (map H) m)) = concat (map H (concat m))"
  by (induction m) simp_all

lemma expected_sumsq_leaves:
  assumes ws: "well_shaped q" and vb: "valid_batch q x indexes" and pal: "parameters_are_leaves q"
    and ne: "x \<noteq> []" and C: "0 < num_codebooks q"
  shows "leaves (expected_sumsq q (modified_sumsq_errs_closed q x indexes)) =
    {Centers} \<union> batch_leaves x"
proof -
  let ?m = "modified_sumsq_errs_closed q x indexes"
  let ?g = "\<lambda>e. e * - exp_scalar (const 10 * detach (frame_entropy_scale q))"
  let ?H = "\<lambda>r. map2 (*) (softmax (map ?g r)) r"
  have ine: "indexes \<noteq> []" using vb ne by (rule valid_batch_nonempty)
  have K: "0 < codebook_size q" using vb ine C by (rule codebook_size_pos)
  have T: "map2 (map2 (map2 (*))) (codebook_probs q ?m) ?m = map (map ?H) ?m"
    by (simp only: codebook_probs_def scaled_neg_sumsq_errs_def map_map comp_def map2_map_left)
  have "concat (concat (map (map ?H) ?m)) = concat (map ?H (concat ?m))"
    by (rule concat_concat_map)
  then have "leaves (expected_sumsq q ?m) =
      (\<Union>r \<in> set (concat ?m). \<Union> (leaves ` set (?H r)))"
    by (simp add: expected_sumsq_def T image_image)
  also have "\<dots> = (\<Union>r \<in> set (concat ?m). \<Union> (leaves ` set r))"
  proof -
    have "\<Union> (leaves ` set (?H r)) = \<Union> (leaves ` set r)" if "r \<in> set (concat ?m)" for r
    proof -
      have "length r = codebook_size q" using that by (rule msq_rows)
      then have "r \<noteq> []" using K by auto
      from leaves_weighted_cell [OF this, of ?g] show ?thesis by (simp add: image_image)
    qed
    then show ?thesis by simp
  qed
  finally show ?thesis by (simp only: msq_all_leaves [OF assms])
qed

lemma energy_leaves: "leaves (sum_list (map sumsq x)) = batch_leaves x"
  by (auto simp: batch_leaves_def sumsq_def)

lemma reconstruction_loss_leaves:
  assumes ws: "well_shaped q" and vb: "valid_batch q x indexes" and pal: "parameters_are_leaves q"
    and ne: "x \<noteq> []" and C: "0 < num_codebooks q"
    and fin: "reconstruction_loss q (modified_sumsq_errs_closed q x indexes) x = Finite r"
  shows "leaves r = {Centers} \<union> batch_leaves x"
proof -
  from fin have "r = expected_sumsq q (modified_sumsq_errs_closed q x indexes) / sum_list (map sumsq x)"
    by (simp add: reconstruction_loss_def torch_div_def split: if_splits)
  then have "leaves r = leaves (expected_sumsq q (modified_sumsq_errs_closed q x indexes)) \<union>
      leaves (sum_list (map sumsq x))"
    by (simp only: leaves_simps)
  then have "leaves r = ({Centers} \<union> batch_leaves x) \<union> batch_leaves x"
    by (simp only: expected_sumsq_leaves [OF ws vb pal ne C] energy_leaves)
  then show ?thesis by blast
qed

text \<open>
  Claim C5. In \<^verbatim>\<open>refine_indexes_stochastic\<close>, for a quantizer whose parameters are leaves and
  a non-empty batch, the autograd graph of the returned frame entropy reaches
  \<open>frame_entropy_scale\<close> and nothing else (the costs enter it detached), while the graphs of
  the returned entropy loss and reconstruction loss reach \<open>centers\<close> and whatever the input
  \<open>x\<close> depends on, and not \<open>frame_entropy_scale\<close> (the temperature enters them detached). So
  the temperature receives gradient through the frame entropy only, and the centers through
  the reconstruction and entropy losses only.
\<close>

theorem gradient_paths_are_separate:
  assumes "well_shaped q" and "valid_batch q x indexes" and "parameters_are_leaves q"
    and "x \<noteq> []" and "0 < num_codebooks q"
  shows "\<exists>new el fe rl. refine_indexes_stochastic q u x indexes = Inr (new, el, fe, rl) \<and>
     leaves fe = {FrameEntropyScale} \<and>
     leaves el = {Centers} \<union> batch_leaves x \<and>
     (\<forall>r. rl = Finite r \<longrightarrow> leaves r = {Centers} \<union> batch_leaves x) \<and>
     (val (sum_list (map sumsq x)) \<noteq> 0 \<longrightarrow> (\<exists>r. rl = Finite r))"
proof -
  let ?m = "modified_sumsq_errs_closed q x indexes"
  have ine: "indexes \<noteq> []" using assms(2,4) by (rule valid_batch_nonempty)
  have K: "0 < codebook_size q" using assms(2) ine assms(5) by (rule codebook_size_pos)
  have "leaves (avg_frame_entropy q ?m) = {FrameEntropyScale}"
    using avg_frame_entropy_leaves [OF ine assms(5) K, of x] assms(3)
    by (simp add: parameters_are_leaves_def)
  moreover have "leaves (entropy_loss q ?m) = {Centers} \<union> batch_leaves x"
    using assms by (rule entropy_loss_leaves)
  moreover have "\<forall>r. reconstruction_loss q ?m x = Finite r \<longrightarrow>
      leaves r = {Centers} \<union> batch_leaves x"
    using reconstruction_loss_leaves [OF assms] by blast
  moreover have "val (sum_list (map sumsq x)) \<noteq> 0 \<longrightarrow> (\<exists>r. reconstruction_loss q ?m x = Finite r)"
    by (simp add: reconstruction_loss_def torch_div_def)
  ultimately show ?thesis
    using refine_indexes_stochastic_eq [OF assms(1,2), of u] by blast
qed

theorem gradient_paths_are_separate_witness:
  "well_shaped example_overshoot \<and>
   valid_batch example_overshoot [[Scalar 3 {Upstream}]] [[0, 0]] \<and>
   parameters_are_leaves example_overshoot \<and>
   (\<exists>new el fe r.
      refine_indexes_stochastic example_overshoot (\<lambda>b c. 0) [[Scalar 3 {Upstream}]] [[0, 0]] =
        Inr (new, el, fe, Finite r) \<and>
      leaves fe = {FrameEntropyScale} \<and> leaves el = {Centers, Upstream} \<and>
      leaves r = {Centers, Upstream})"
proof -
  have ws: "well_shaped example_overshoot"
    by (simp add: example_overshoot_def well_shaped_def)
  have vb: "valid_batch example_overshoot [[Scalar 3 {Upstream}]] [[0, 0]]"
    by (simp add: example_overshoot_def valid_batch_def in_range_def)
  have pal: "parameters_are_leaves example_overshoot"
    by (simp add: example_overshoot_def parameters_are_leaves_def)
  have ne: "[[Scalar 3 {Upstream}]] \<noteq> []" by simp
  have C: "0 < num_codebooks example_overshoot" by (simp add: example_overshoot_def)
  have bl: "batch_leaves [[Scalar 3 {Upstream}]] = {Upstream}" by (simp add: batch_leaves_def)
  have en: "val (sum_list (map sumsq [[Scalar 3 {Upstream}]])) \<noteq> 0" by (simp add: sumsq_def)
  from gradient_paths_are_separate [OF ws vb pal ne C, of "\<lambda>b c. 0"] en
  obtain new el fe r where
    "refine_indexes_stochastic example_overshoot (\<lambda>b c. 0) [[Scalar 3 {Upstream}]] [[0, 0]] =
        Inr (new, el, fe, Finite r)"
    "leaves fe = {FrameEntropyScale}" "leaves el = {Centers} \<union> batch_leaves [[Scalar 3 {Upstream}]]"
    "leaves r = {Centers} \<union> batch_leaves [[Scalar 3 {Upstream}]]"
    by blast
  with ws vb pal show ?thesis unfolding bl by auto
qed

lemma example_balanced_sample:
  "sample_indexes (\<lambda>b c. 3 / 4)
     (codebook_logprobs_detached example_balanced
        (modified_sumsq_errs_closed example_balanced [[const 1]] [[0]])) = [[1]]"
proof -
  define m where "m = modified_sumsq_errs_closed example_balanced [[const 1]] [[0]]"
  define s where "s = sumsq [parameter Centers 1 - const 1 - parameter Centers 1 + parameter Centers 1]"
  have m: "m = [[[s, s]]]"
    by (simp add: m_def s_def modified_sumsq_errs_closed_def modified_errs_closed_def
        example_balanced_def upt_rec)
  have s: "val s = 0" by (simp add: s_def sumsq_def)
  have l: "length (codebook_logprobs_detached example_balanced m) = 1"
    "length (codebook_logprobs_detached example_balanced m ! 0) = 1"
    by (simp_all add: m codebook_logprobs_detached_def scaled_neg_sumsq_errs_detached_def)
  have "map val (categorical_probs (codebook_logprobs_detached example_balanced m ! 0 ! 0)) =
      softmax_real (logits_real example_balanced (m ! 0 ! 0))"
    by (rule sampling_probs_val) (simp_all add: m)
  also have "\<dots> = [1 / 2, 1 / 2]"
    by (simp add: m logits_real_def softmax_real_def s)
  finally have "sample_indexes (\<lambda>b c. 3 / 4) (codebook_logprobs_detached example_balanced m) = [[1]]"
    by (simp add: sample_indexes_def l)
  then show ?thesis by (simp only: m_def)
qed

lemma forward_example_reaches_last:
  "\<exists>el fe rl. forward example_balanced (\<lambda>b c. 0) (\<lambda>i b c. 3 / 4) [[const 1]] 1 =
     Inr ([[1]], el, fe, rl)"
proof -
  have ws: "well_shaped example_balanced"
    by (simp add: example_balanced_def well_shaped_def)
  have vb: "valid_batch example_balanced [[const 1]] [[0]]"
    by (simp add: example_balanced_def valid_batch_def in_range_def)
  have i: "initial_indexes example_balanced (Suc 0) (\<lambda>b c. 0) = Inr [[0]]"
    by (simp add: initial_indexes_def randint_def example_balanced_def)
  have d: "dim example_balanced = Suc 0" by (simp add: example_balanced_def)
  show ?thesis
    by (simp add: forward_def d i refine_indexes_stochastic_eq [OF ws vb]
        example_balanced_sample)
qed

text \<open>
  Claim C6. \<^verbatim>\<open>forward\<close> starts from \<^verbatim>\<open>torch.randint(self.codebook_size - 1, ...)\<close>: for
  \<open>codebook_size \<ge> 2\<close> every component of the initial code tuple lies in
  \<open>{0, ..., codebook_size - 2}\<close> and is never the last candidate \<open>codebook_size - 1\<close>; every
  value of that range occurs for some draw, with the same probability
  \<open>1 / (codebook_size - 1)\<close>, and the last candidate has probability \<open>0\<close>. (A refinement
  step can bring the last candidate in: \<open>forward_example_reaches_last\<close>.)
\<close>

theorem initial_indexes_exclude_last:
  assumes "2 \<le> codebook_size q"
  shows "(\<exists>idx. initial_indexes q B raw = Inr idx \<and> length idx = B \<and>
            (\<forall>b < B. length (idx ! b) = num_codebooks q \<and>
               (\<forall>c < num_codebooks q. 0 \<le> idx ! b ! c \<and> idx ! b ! c \<le> int (codebook_size q) - 2 \<and>
                  idx ! b ! c \<noteq> int (codebook_size q) - 1))) \<and>
         (\<forall>k. 0 \<le> k \<and> k \<le> int (codebook_size q) - 2 \<longrightarrow>
            initial_index_pmf q k = 1 / (real (codebook_size q) - 1) \<and>
            initial_indexes q B (\<lambda>b c. nat k) =
              Inr (replicate B (replicate (num_codebooks q) k))) \<and>
         initial_index_pmf q (int (codebook_size q) - 1) = 0"
proof (intro conjI allI impI)
  let ?h = "int (codebook_size q) - 1"
  let ?idx = "map (\<lambda>b. map (\<lambda>c. int (raw b c) mod ?h) [0..<num_codebooks q]) [0..<B]"
  have h: "0 < ?h" using assms by simp
  have i: "initial_indexes q B raw = Inr ?idx"
    using h by (simp add: initial_indexes_def randint_def)
  have "0 \<le> int (raw b c) mod ?h \<and> int (raw b c) mod ?h \<le> int (codebook_size q) - 2 \<and>
      int (raw b c) mod ?h \<noteq> ?h" for b c
  proof -
    have "int (raw b c) mod ?h < ?h" using h by (rule pos_mod_bound)
    moreover have "0 \<le> int (raw b c) mod ?h" using h by simp
    ultimately show ?thesis by linarith
  qed
  then have "\<forall>b < B. length (?idx ! b) = num_codebooks q \<and>
               (\<forall>c < num_codebooks q. 0 \<le> ?idx ! b ! c \<and> ?idx ! b ! c \<le> int (codebook_size q) - 2 \<and>
                  ?idx ! b ! c \<noteq> ?h)"
    by simp
  with i show "\<exists>idx. initial_indexes q B raw = Inr idx \<and> length idx = B \<and>
            (\<forall>b < B. length (idx ! b) = num_codebooks q \<and>
               (\<forall>c < num_codebooks q. 0 \<le> idx ! b ! c \<and> idx ! b ! c \<le> int (codebook_size q) - 2 \<and>
                  idx ! b ! c \<noteq> ?h))"
    by (intro exI [of _ ?idx]) simp
  show "initial_index_pmf q ?h = 0"
    by (simp add: initial_index_pmf_def randint_pmf_def)
  fix k assume k: "0 \<le> k \<and> k \<le> int (codebook_size q) - 2"
  show "initial_index_pmf q k = 1 / (real (codebook_size q) - 1)"
    using k assms by (simp add: initial_index_pmf_def randint_pmf_def)
  have "int (nat k) mod ?h = k" using k by simp
  then show "initial_indexes q B (\<lambda>b c. nat k) = Inr (replicate B (replicate (num_codebooks q) k))"
    using h by (simp add: initial_indexes_def randint_def map_replicate_const)
qed

theorem initial_indexes_exclude_last_witness:
  "2 \<le> codebook_size example_overshoot \<and>
   initial_indexes example_overshoot 1 (\<lambda>b c. 7) = Inr [[0, 0]] \<and>
   initial_index_pmf example_overshoot 0 = 1 \<and>
   initial_index_pmf example_overshoot 1 = 0 \<and>
   (\<exists>el fe rl. forward example_balanced (\<lambda>b c. 0) (\<lambda>i b c. 3 / 4) [[const 1]] 1 =
      Inr ([[1]], el, fe, rl))"
proof -
  have K: "2 \<le> codebook_size example_overshoot" by (simp add: example_overshoot_def)
  have k2: "codebook_size example_overshoot = 2" by (simp add: example_overshoot_def)
  from initial_indexes_exclude_last [OF K, of 1 "\<lambda>b c. 7"]
  have a: "\<forall>k. 0 \<le> k \<and> k \<le> int (codebook_size example_overshoot) - 2 \<longrightarrow>
            initial_index_pmf example_overshoot k = 1 / (real (codebook_size example_overshoot) - 1) \<and>
            initial_indexes example_overshoot 1 (\<lambda>b c. nat k) =
              Inr (replicate 1 (replicate (num_codebooks example_overshoot) k))"
    and b: "initial_index_pmf example_overshoot (int (codebook_size example_overshoot) - 1) = 0"
    by blast+
  from a [rule_format, of 0] have "initial_index_pmf example_overshoot 0 = 1" by (simp add: k2)
  moreover from b have "initial_index_pmf example_overshoot 1 = 0" by (simp add: k2)
  moreover have "initial_indexes example_overshoot 1 (\<lambda>b c. 7) = Inr [[0, 0]]"
    by (simp add: initial_indexes_def randint_def example_overshoot_def upt_rec)
  ultimately show ?thesis using K forward_example_reaches_last by blast
qed

text \<open>
  Claim C3 fails on the code: \<^verbatim>\<open>compute_ref_loss\<close> raises AttributeError at its first
  statement, for every quantizer and every input, because the class has no method
  \<^verbatim>\<open>_logits\<close> (nor \<^verbatim>\<open>_to_output\<close>). The docstring promises a scalar.
\<close>

theorem compute_ref_loss_raises:
  "compute_ref_loss logits_impl to_output_impl q x = Inl (AttributeError ''_logits'')"
  by (simp add: compute_ref_loss_def getattr_def class_attributes_def)

lemma compute_ref_loss_body_finite:
  assumes "compute_ref_loss_body logits to_output q x = Inr v"
  shows "\<exists>r. v = Finite r"
proof -
  have "0 \<le> val (sum_list (map sumsq x))"
    by (simp add: comp_def) (intro sum_list_nonneg, auto simp: val_sumsq_nonneg)
  then have "val (sum_list (map sumsq x) + const epsilon) \<noteq> 0"
    by (simp add: epsilon_def add_nonneg_pos less_imp_neq [THEN not_sym])
  with assms show ?thesis
    by (auto simp: compute_ref_loss_body_def Let_def torch_div_def split: sum.splits)
qed

lemma reconstruction_loss_zero_energy:
  assumes "val (sum_list (map sumsq x)) = 0"
  shows "reconstruction_loss q m x \<noteq> Finite r"
  using assms by (simp add: reconstruction_loss_def torch_div_def)

lemma example_balanced_zero_batch:
  "reconstruction_loss example_balanced
     (modified_sumsq_errs_closed example_balanced [[const 0]] [[0]]) [[const 0]] = PosInf"
  by (simp add: reconstruction_loss_def torch_div_def expected_sumsq_def codebook_probs_def
      scaled_neg_sumsq_errs_def softmax_def modified_sumsq_errs_closed_def
      modified_errs_closed_def sumsq_def example_balanced_def upt_rec)

text \<open>
  Claim C4 fails on the code: \<^verbatim>\<open>refine_indexes_stochastic\<close> divides \<open>expected_sumsq\<close> by
  \<^verbatim>\<open>(x ** 2).sum()\<close> with no epsilon. On the all-zero batch \<open>[[0.0]]\<close> (one codebook with
  centers \<open>1\<close> and \<open>1\<close>) the denominator is zero and the reconstruction loss is infinite;
  \<^verbatim>\<open>forward\<close> returns a non-finite reconstruction loss on the same batch.
\<close>

theorem reconstruction_loss_divides_by_zero:
  "well_shaped example_balanced \<and> valid_batch example_balanced [[const 0]] [[0]] \<and>
   (\<exists>new el fe. refine_indexes_stochastic example_balanced (\<lambda>b c. 0) [[const 0]] [[0]] =
      Inr (new, el, fe, PosInf)) \<and>
   (\<exists>idx el fe rl. forward example_balanced (\<lambda>b c. 0) (\<lambda>i b c. 0) [[const 0]] 1 =
      Inr (idx, el, fe, rl) \<and> (\<forall>r. rl \<noteq> Finite r))"
proof -
  have ws: "well_shaped example_balanced"
    by (simp add: example_balanced_def well_shaped_def)
  have vb: "valid_batch example_balanced [[const 0]] [[0]]"
    by (simp add: example_balanced_def valid_batch_def in_range_def)
  have a: "\<exists>new el fe. refine_indexes_stochastic example_balanced (\<lambda>b c. 0) [[const 0]] [[0]] =
      Inr (new, el, fe, PosInf)"
    using refine_indexes_stochastic_eq [OF ws vb, of "\<lambda>b c. 0"] example_balanced_zero_batch
    by simp
  have K: "2 \<le> codebook_size example_balanced" by (simp add: example_balanced_def)
  have xl: "list_all (\<lambda>r. length r = dim example_balanced) [[const 0]]"
    by (simp add: example_balanced_def)
  have n: "0 < (1 :: nat)" by simp
  from forward_last_iteration [OF ws K xl n, of "\<lambda>i b c. 0" "\<lambda>b c. 0"]
  obtain idx' idx losses where
    f: "valid_batch example_balanced [[const 0]] idx'"
    "refine_indexes_stochastic example_balanced ((\<lambda>i b c. 0) (1 - 1 :: nat)) [[const 0]] idx' = Inr (idx, losses)"
    "forward example_balanced (\<lambda>b c. 0) (\<lambda>i b c. 0) [[const 0]] 1 = Inr (idx, losses)" by blast
  from f(2) refine_indexes_stochastic_eq [OF ws f(1), of "(\<lambda>i b c. 0) (1 - 1 :: nat)"]
  have l: "losses = (entropy_loss example_balanced (modified_sumsq_errs_closed example_balanced [[const 0]] idx'),
        avg_frame_entropy example_balanced (modified_sumsq_errs_closed example_balanced [[const 0]] idx'),
        reconstruction_loss example_balanced (modified_sumsq_errs_closed example_balanced [[const 0]] idx') [[const 0]])"
    by simp
  have z: "val (sum_list (map sumsq [[const 0]])) = 0" by (simp add: sumsq_def)
  have "\<forall>r. reconstruction_loss example_balanced
      (modified_sumsq_errs_closed example_balanced [[const 0]] idx') [[const 0]] \<noteq> Finite r"
    using reconstruction_loss_zero_energy [OF z] by blast
  with f(3) l have "\<exists>idx el fe rl. forward example_balanced (\<lambda>b c. 0) (\<lambda>i b c. 0) [[const 0]] 1 =
      Inr (idx, el, fe, rl) \<and> (\<forall>r. rl \<noteq> Finite r)" by blast
  with ws vb a show ?thesis by blast
qed

end
